theory Spec2Isabelle
  imports Complex_Main "HOL-Library.Multiset" "HOL-Library.Sublist"
    "HOL-Library.Char_ord" "HOL-Library.List_Lexorder"
begin

section \<open>Item model\<close>

text \<open>
  The classes of \<^verbatim>\<open>FDS_Project_MagdalenaZheleva.cpp\<close> are three families below the
  abstract class \<^verbatim>\<open>Item\<close>. Each family is a datatype with one constructor per concrete
  class; the fields of the base class come first, in the order of the constructors of
  the source. A virtual method is a function on the datatype whose cases are the
  overrides.

  The vectors the algorithms work on hold pointers (\<^verbatim>\<open>vector<Task*>\<close>,
  \<^verbatim>\<open>vector<Goal*>\<close>, \<^verbatim>\<open>vector<Note*>\<close>). A pointer is an address, and the objects
  live in a store that maps an address to the object; no algorithm here writes to an
  object, so the store is only read.
\<close>

type_synonym ptr = nat

text \<open>
  \<^verbatim>\<open>int priority\<close> is only stored and compared, never computed with, so it is an
  integer here. The strings are lists of bytes.
\<close>

datatype task =
    Task (task_title: string) (task_description: string) (deadline: string) (priority: int)
  | RecurringTask (task_title: string) (task_description: string) (deadline: string)
      (priority: int) (recurrenceInterval: string)
  | OneTimeTask (task_title: string) (task_description: string) (deadline: string)
      (priority: int)

datatype note_item =
    Note (title: string) (description: string) (tags: "string list")
  | ProtectedNote (title: string) (description: string) (tags: "string list")
      (password: string)
  | PublicNote (title: string) (description: string) (tags: "string list")

text \<open>
  \<^verbatim>\<open>double progress\<close> is a real number here: the code only stores, returns and
  compares it, and on finite doubles the comparisons are those of the reals.
\<close>

datatype goal =
    Goal (goal_title: string) (goal_description: string) (progress: real)
  | QuantifiableGoal (goal_title: string) (goal_description: string) (progress: real)
  | NonQuantifiableGoal (goal_title: string) (goal_description: string) (progress: real)

text \<open>\<^verbatim>\<open>virtual double getProgress() const\<close> with its two overrides.\<close>

fun getProgress :: "goal \<Rightarrow> real" where
  "getProgress (Goal t d p) = p"
| "getProgress (QuantifiableGoal t d p) = p"
| "getProgress (NonQuantifiableGoal t d p) = - 1"

subsection \<open>Detail text of a note\<close>

text \<open>
  \<^verbatim>\<open>Note::getDetails\<close>: the header, then every tag followed by a comma and a space,
  then two \<^verbatim>\<open>pop_back\<close> calls. The string is never empty when \<^verbatim>\<open>pop_back\<close> runs
  (the header alone has more than two characters), so \<^const>\<open>butlast\<close> is what it does.
\<close>

definition newline :: string where
  "newline = [CHR 0x0A]"

definition Note_getDetails :: "note_item \<Rightarrow> string" where
  "Note_getDetails n =
     (let details = ''Title: '' @ title n @ newline @ ''Description: '' @ description n
                      @ newline @ ''Tags: '';
          details = foldl (\<lambda>details tag. details @ (tag @ '', '')) details (tags n);
          details = butlast details;
          details = butlast details
      in details)"

text \<open>The virtual \<^verbatim>\<open>getDetails\<close> of the note family.\<close>

fun getDetails :: "note_item \<Rightarrow> string" where
  "getDetails (Note t d ts) = Note_getDetails (Note t d ts)"
| "getDetails (ProtectedNote t d ts pw) =
     Note_getDetails (ProtectedNote t d ts pw) @ newline @ ''Password Protected''"
| "getDetails (PublicNote t d ts) = Note_getDetails (PublicNote t d ts)"

text \<open>The tags joined by a comma and a space, with no separator at the end.\<close>

fun joined :: "string list \<Rightarrow> string" where
  "joined [] = []"
| "joined [t] = t"
| "joined (t # u # ts) = t @ '', '' @ joined (u # ts)"

section \<open>Progress ranking: heap sort\<close>

text \<open>
  \<^verbatim>\<open>swap(goals[i], goals[largest])\<close> on a vector. Every call in the source has both
  indices inside the vector.
\<close>

definition swap :: "'a list \<Rightarrow> nat \<Rightarrow> nat \<Rightarrow> 'a list" where
  "swap xs i j = (xs[i := xs ! j])[j := xs ! i]"

text \<open>
  \<^verbatim>\<open>heapify(goals, n, i)\<close>. The indices are \<^verbatim>\<open>int\<close> in the source and never
  negative, so they are natural numbers here (a vector whose size fits an \<^verbatim>\<open>int\<close>
  is assumed throughout). The recursion goes from \<open>i\<close> to a child of \<open>i\<close> below
  \<open>n\<close>.
\<close>

function heapify :: "(ptr \<Rightarrow> goal) \<Rightarrow> ptr list \<Rightarrow> nat \<Rightarrow> nat \<Rightarrow> ptr list" where
  "heapify h goals n i =
     (let largest = i;
          left = 2 * i + 1;
          right = 2 * i + 2;
          largest =
            (if left < n
                \<and> getProgress (h (goals ! left)) > getProgress (h (goals ! largest))
                \<and> getProgress (h (goals ! left)) \<noteq> - 1
             then left else largest);
          largest =
            (if right < n
                \<and> getProgress (h (goals ! right)) > getProgress (h (goals ! largest))
                \<and> getProgress (h (goals ! right)) \<noteq> - 1
             then right else largest)
      in if largest \<noteq> i then heapify h (swap goals i largest) n largest else goals)"
  by pat_completeness auto
termination
  by (relation "measure (\<lambda>(h, goals, n, i). n - i)") (auto split: if_splits)

declare heapify.simps [simp del]

text \<open>
  The two loops of \<^verbatim>\<open>heapSort\<close>. Their counter \<^verbatim>\<open>int i\<close> runs down to -1, where
  the test \<^verbatim>\<open>i >= 0\<close> fails.
\<close>

function heapSort_build :: "(ptr \<Rightarrow> goal) \<Rightarrow> ptr list \<Rightarrow> nat \<Rightarrow> int \<Rightarrow> ptr list" where
  "heapSort_build h goals n i =
     (if i \<ge> 0 then heapSort_build h (heapify h goals n (nat i)) n (i - 1) else goals)"
  by pat_completeness auto
termination
  by (relation "measure (\<lambda>(h, goals, n, i). nat (i + 1))") auto

declare heapSort_build.simps [simp del]

function heapSort_extract :: "(ptr \<Rightarrow> goal) \<Rightarrow> ptr list \<Rightarrow> int \<Rightarrow> ptr list" where
  "heapSort_extract h goals i =
     (if i \<ge> 0
      then heapSort_extract h (heapify h (swap goals 0 (nat i)) (nat i) 0) (i - 1)
      else goals)"
  by pat_completeness auto
termination
  by (relation "measure (\<lambda>(h, goals, i). nat (i + 1))") auto

declare heapSort_extract.simps [simp del]

definition heapSort :: "(ptr \<Rightarrow> goal) \<Rightarrow> ptr list \<Rightarrow> ptr list" where
  "heapSort h goals =
     (let n = length goals;
          goals = heapSort_build h goals n (int n div 2 - 1)
      in heapSort_extract h goals (int n - 1))"

section \<open>Key ordering: merge sort\<close>

text \<open>
  \<^verbatim>\<open>merge(tasks, left, mid, right)\<close>. All its variables are \<^verbatim>\<open>int\<close> and are
  integers here; a vector is indexed through \<^const>\<open>nat\<close>. The two \<^verbatim>\<open>for\<close> loops fill
  \<^verbatim>\<open>L\<close> and \<^verbatim>\<open>R\<close> with \<^verbatim>\<open>tasks[left + i]\<close> for \<^verbatim>\<open>i\<close> from 0 to \<^verbatim>\<open>n1 - 1\<close>
  and \<^verbatim>\<open>tasks[mid + 1 + j]\<close> for \<^verbatim>\<open>j\<close> from 0 to \<^verbatim>\<open>n2 - 1\<close>. The three \<^verbatim>\<open>while\<close>
  loops follow, each as a function from the variables it changes to their values when
  it ends. \<^verbatim>\<open>mergeSort\<close> calls \<^verbatim>\<open>merge\<close> with
  \<^verbatim>\<open>0 <= left <= mid < right < tasks.size()\<close>, and then every index is inside its
  vector.
\<close>

function merge_while1 ::
  "(ptr \<Rightarrow> task) \<Rightarrow> ptr list \<Rightarrow> ptr list \<Rightarrow> int \<Rightarrow> int
     \<Rightarrow> ptr list \<Rightarrow> int \<Rightarrow> int \<Rightarrow> int \<Rightarrow> ptr list \<times> int \<times> int \<times> int" where
  "merge_while1 h L R n1 n2 tasks i j k =
     (if i < n1 \<and> j < n2 then
        (if priority (h (L ! nat i)) \<le> priority (h (R ! nat j))
         then merge_while1 h L R n1 n2 (tasks[nat k := L ! nat i]) (i + 1) j (k + 1)
         else merge_while1 h L R n1 n2 (tasks[nat k := R ! nat j]) i (j + 1) (k + 1))
      else (tasks, i, j, k))"
  by pat_completeness auto
termination
  by (relation "measure (\<lambda>(h, L, R, n1, n2, tasks, i, j, k). nat (n1 - i) + nat (n2 - j))")
    auto

declare merge_while1.simps [simp del]

function merge_while2 ::
  "ptr list \<Rightarrow> int \<Rightarrow> ptr list \<Rightarrow> int \<Rightarrow> int \<Rightarrow> ptr list \<times> int \<times> int" where
  "merge_while2 L n1 tasks i k =
     (if i < n1 then merge_while2 L n1 (tasks[nat k := L ! nat i]) (i + 1) (k + 1)
      else (tasks, i, k))"
  by pat_completeness auto
termination
  by (relation "measure (\<lambda>(L, n1, tasks, i, k). nat (n1 - i))") auto

declare merge_while2.simps [simp del]

function merge_while3 ::
  "ptr list \<Rightarrow> int \<Rightarrow> ptr list \<Rightarrow> int \<Rightarrow> int \<Rightarrow> ptr list \<times> int \<times> int" where
  "merge_while3 R n2 tasks j k =
     (if j < n2 then merge_while3 R n2 (tasks[nat k := R ! nat j]) (j + 1) (k + 1)
      else (tasks, j, k))"
  by pat_completeness auto
termination
  by (relation "measure (\<lambda>(R, n2, tasks, j, k). nat (n2 - j))") auto

declare merge_while3.simps [simp del]

definition merge :: "(ptr \<Rightarrow> task) \<Rightarrow> ptr list \<Rightarrow> int \<Rightarrow> int \<Rightarrow> int \<Rightarrow> ptr list" where
  "merge h tasks left mid right =
     (let n1 = mid - left + 1;
          n2 = right - mid;
          L = map (\<lambda>i. tasks ! nat (left + i)) [0..n1 - 1];
          R = map (\<lambda>j. tasks ! nat (mid + 1 + j)) [0..n2 - 1];
          (tasks, i, j, k) = merge_while1 h L R n1 n2 tasks 0 0 left;
          (tasks, i, k) = merge_while2 L n1 tasks i k;
          (tasks, j, k) = merge_while3 R n2 tasks j k
      in tasks)"

text \<open>
  \<^verbatim>\<open>mergeSort(tasks, left, right)\<close>. Below the test \<^verbatim>\<open>left >= right\<close> the
  difference \<^verbatim>\<open>right - left\<close> is positive, where the division of C++ and
  \<^const>\<open>divide\<close> agree.
\<close>

function mergeSort :: "(ptr \<Rightarrow> task) \<Rightarrow> ptr list \<Rightarrow> int \<Rightarrow> int \<Rightarrow> ptr list" where
  "mergeSort h tasks left right =
     (if left \<ge> right then tasks
      else
        (let mid = left + (right - left) div 2;
             tasks = mergeSort h tasks left mid;
             tasks = mergeSort h tasks (mid + 1) right
         in merge h tasks left mid right))"
  by pat_completeness auto
termination
  by (relation "measure (\<lambda>(h, tasks, left, right). nat (right - left))") auto

declare mergeSort.simps [simp del]

text \<open>
  Menu entry 5 of \<^verbatim>\<open>handleTasks\<close>: \<^verbatim>\<open>mergeSort(tasks, 0, tasks.size() - 1)\<close>.
  For the empty vector the third argument is -1.
\<close>

definition sortTasksByPriority :: "(ptr \<Rightarrow> task) \<Rightarrow> ptr list \<Rightarrow> ptr list" where
  "sortTasksByPriority h tasks = mergeSort h tasks 0 (int (length tasks) - 1)"

text \<open>
  \<^verbatim>\<open>mergeByDeadline\<close> and \<^verbatim>\<open>mergeSortByDeadline\<close>: the same with the deadlines
  compared by \<^verbatim>\<open>operator<=\<close> of \<^verbatim>\<open>std::string\<close>, which is the lexicographic order
  of the strings over the order of their characters as unsigned bytes. This is the
  order of \<^typ>\<open>string\<close> here.
\<close>

function mergeByDeadline_while1 ::
  "(ptr \<Rightarrow> task) \<Rightarrow> ptr list \<Rightarrow> ptr list \<Rightarrow> int \<Rightarrow> int
     \<Rightarrow> ptr list \<Rightarrow> int \<Rightarrow> int \<Rightarrow> int \<Rightarrow> ptr list \<times> int \<times> int \<times> int" where
  "mergeByDeadline_while1 h L R n1 n2 tasks i j k =
     (if i < n1 \<and> j < n2 then
        (if deadline (h (L ! nat i)) \<le> deadline (h (R ! nat j))
         then mergeByDeadline_while1 h L R n1 n2 (tasks[nat k := L ! nat i]) (i + 1) j (k + 1)
         else mergeByDeadline_while1 h L R n1 n2 (tasks[nat k := R ! nat j]) i (j + 1) (k + 1))
      else (tasks, i, j, k))"
  by pat_completeness auto
termination
  by (relation "measure (\<lambda>(h, L, R, n1, n2, tasks, i, j, k). nat (n1 - i) + nat (n2 - j))")
    auto

declare mergeByDeadline_while1.simps [simp del]

function mergeByDeadline_while2 ::
  "ptr list \<Rightarrow> int \<Rightarrow> ptr list \<Rightarrow> int \<Rightarrow> int \<Rightarrow> ptr list \<times> int \<times> int" where
  "mergeByDeadline_while2 L n1 tasks i k =
     (if i < n1 then mergeByDeadline_while2 L n1 (tasks[nat k := L ! nat i]) (i + 1) (k + 1)
      else (tasks, i, k))"
  by pat_completeness auto
termination
  by (relation "measure (\<lambda>(L, n1, tasks, i, k). nat (n1 - i))") auto

declare mergeByDeadline_while2.simps [simp del]

function mergeByDeadline_while3 ::
  "ptr list \<Rightarrow> int \<Rightarrow> ptr list \<Rightarrow> int \<Rightarrow> int \<Rightarrow> ptr list \<times> int \<times> int" where
  "mergeByDeadline_while3 R n2 tasks j k =
     (if j < n2 then mergeByDeadline_while3 R n2 (tasks[nat k := R ! nat j]) (j + 1) (k + 1)
      else (tasks, j, k))"
  by pat_completeness auto
termination
  by (relation "measure (\<lambda>(R, n2, tasks, j, k). nat (n2 - j))") auto

declare mergeByDeadline_while3.simps [simp del]

definition mergeByDeadline ::
  "(ptr \<Rightarrow> task) \<Rightarrow> ptr list \<Rightarrow> int \<Rightarrow> int \<Rightarrow> int \<Rightarrow> ptr list" where
  "mergeByDeadline h tasks left mid right =
     (let n1 = mid - left + 1;
          n2 = right - mid;
          L = map (\<lambda>i. tasks ! nat (left + i)) [0..n1 - 1];
          R = map (\<lambda>j. tasks ! nat (mid + 1 + j)) [0..n2 - 1];
          (tasks, i, j, k) = mergeByDeadline_while1 h L R n1 n2 tasks 0 0 left;
          (tasks, i, k) = mergeByDeadline_while2 L n1 tasks i k;
          (tasks, j, k) = mergeByDeadline_while3 R n2 tasks j k
      in tasks)"

function mergeSortByDeadline :: "(ptr \<Rightarrow> task) \<Rightarrow> ptr list \<Rightarrow> int \<Rightarrow> int \<Rightarrow> ptr list" where
  "mergeSortByDeadline h tasks left right =
     (if left \<ge> right then tasks
      else
        (let mid = left + (right - left) div 2;
             tasks = mergeSortByDeadline h tasks left mid;
             tasks = mergeSortByDeadline h tasks (mid + 1) right
         in mergeByDeadline h tasks left mid right))"
  by pat_completeness auto
termination
  by (relation "measure (\<lambda>(h, tasks, left, right). nat (right - left))") auto

declare mergeSortByDeadline.simps [simp del]

text \<open>
  Menu entry 6 of \<^verbatim>\<open>handleTasks\<close>:
  \<^verbatim>\<open>mergeSortByDeadline(tasks, 0, tasks.size() - 1)\<close>.
\<close>

definition sortTasksByDeadline :: "(ptr \<Rightarrow> task) \<Rightarrow> ptr list \<Rightarrow> ptr list" where
  "sortTasksByDeadline h tasks = mergeSortByDeadline h tasks 0 (int (length tasks) - 1)"

section \<open>Text search: Knuth-Morris-Pratt\<close>

text \<open>
  \<^verbatim>\<open>computeKMPTable\<close> and \<^verbatim>\<open>KMPSearch\<close>. Their \<^verbatim>\<open>int\<close> variables are lengths,
  indexes and table entries that start at 0 or 1 and are only incremented or replaced
  by a table entry, so they are natural numbers here. Neither \<^verbatim>\<open>while\<close> loop has
  an evident bound (a step may leave \<^verbatim>\<open>i\<close> as it is and replace \<^verbatim>\<open>len\<close> or
  \<^verbatim>\<open>j\<close> by a table entry), so each is a partial function into \<^typ>\<open>'a option\<close>:
  \<^const>\<open>None\<close> is a loop that does not end. That both always end is part of what
  is proved about them.
\<close>

partial_function (option) computeKMPTable_while ::
  "string \<Rightarrow> nat \<Rightarrow> nat list \<Rightarrow> nat \<Rightarrow> nat \<Rightarrow> nat list option" where
  "computeKMPTable_while pattern m lps len i =
     (if i < m then
        (if pattern ! i = pattern ! len
         then computeKMPTable_while pattern m (lps[i := len + 1]) (len + 1) (i + 1)
         else if len \<noteq> 0
         then computeKMPTable_while pattern m lps (lps ! (len - 1)) i
         else computeKMPTable_while pattern m (lps[i := 0]) len (i + 1))
      else Some lps)"

declare computeKMPTable_while.simps [code]

definition computeKMPTable :: "string \<Rightarrow> nat list option" where
  "computeKMPTable pattern =
     (let m = length pattern;
          lps = replicate m 0;
          len = 0;
          i = 1
      in computeKMPTable_while pattern m lps len i)"

partial_function (option) KMPSearch_while ::
  "string \<Rightarrow> string \<Rightarrow> nat \<Rightarrow> nat \<Rightarrow> nat list \<Rightarrow> nat \<Rightarrow> nat \<Rightarrow> bool option" where
  "KMPSearch_while text pattern n m lps i j =
     (if i < n then
        (if text ! i = pattern ! j
         then (if j + 1 = m then Some True
               else KMPSearch_while text pattern n m lps (i + 1) (j + 1))
         else if j \<noteq> 0
         then KMPSearch_while text pattern n m lps i (lps ! (j - 1))
         else KMPSearch_while text pattern n m lps (i + 1) j)
      else Some False)"

declare KMPSearch_while.simps [code]

definition KMPSearch :: "string \<Rightarrow> string \<Rightarrow> bool option" where
  "KMPSearch text pattern =
     (if pattern = [] then Some False
      else
        (let n = length text;
             m = length pattern;
             i = 0;
             j = 0
         in case computeKMPTable pattern of
              None \<Rightarrow> None
            | Some lps \<Rightarrow> KMPSearch_while text pattern n m lps i j))"

section \<open>Searching the notes\<close>

text \<open>
  The two search functions return nothing and write to \<^verbatim>\<open>cout\<close>. What they write is
  a list of outputs here: \<open>Display p\<close> is the call \<^verbatim>\<open>note->display()\<close> on the
  note at address \<open>p\<close> (followed by an empty line), and \<open>Line s\<close> is the text \<open>s\<close>
  written with \<^verbatim>\<open>endl\<close>. The loop over the notes carries the flag \<^verbatim>\<open>found\<close> and
  the outputs so far.
\<close>

datatype printed = Display ptr | Line string

text \<open>
  \<^verbatim>\<open>searchNotesByTag\<close>. \<^verbatim>\<open>find(note->tags.begin(), note->tags.end(), tag)\<close> compares
  the strings with \<^verbatim>\<open>==\<close> and is different from \<^verbatim>\<open>end()\<close> when one of the tags
  is equal to \<^verbatim>\<open>tag\<close>.
\<close>

fun searchNotesByTag_for ::
  "(ptr \<Rightarrow> note_item) \<Rightarrow> ptr list \<Rightarrow> string \<Rightarrow> bool \<times> printed list \<Rightarrow> bool \<times> printed list" where
  "searchNotesByTag_for h [] tag (found, out) = (found, out)"
| "searchNotesByTag_for h (note # notes) tag (found, out) =
     (if tag \<in> set (tags (h note))
      then searchNotesByTag_for h notes tag (True, out @ [Display note])
      else searchNotesByTag_for h notes tag (found, out))"

definition searchNotesByTag :: "(ptr \<Rightarrow> note_item) \<Rightarrow> ptr list \<Rightarrow> string \<Rightarrow> printed list" where
  "searchNotesByTag h notes tag =
     (let (found, out) = searchNotesByTag_for h notes tag (False, [])
      in if \<not> found then out @ [Line ''No notes found with that tag.''] else out)"

text \<open>
  \<^verbatim>\<open>toLowerCase\<close> applies \<^verbatim>\<open>tolower\<close> of the C library to every character, as an
  \<^verbatim>\<open>unsigned char\<close>. The program never changes the locale, and in the locale "C"
  \<^verbatim>\<open>tolower\<close> maps the letters A to Z to a to z and leaves the other characters.
\<close>

definition tolower :: "char \<Rightarrow> char" where
  "tolower c =
     (if CHR ''A'' \<le> c \<and> c \<le> CHR ''Z'' then char_of (of_char c + (32 :: nat)) else c)"

definition toLowerCase :: "string \<Rightarrow> string" where
  "toLowerCase str = map tolower str"

text \<open>
  \<^verbatim>\<open>searchNotesFullText\<close>. The text searched in a note is its title, a space, its
  description, a space, and then every tag followed by a space. The result is in
  \<^typ>\<open>'a option\<close> because \<^const>\<open>KMPSearch\<close> is.
\<close>

definition fullText :: "note_item \<Rightarrow> string" where
  "fullText note =
     (let fullText = title note @ '' '' @ description note @ '' ''
      in foldl (\<lambda>fullText tag. fullText @ (tag @ '' '')) fullText (tags note))"

fun searchNotesFullText_for ::
  "(ptr \<Rightarrow> note_item) \<Rightarrow> ptr list \<Rightarrow> string \<Rightarrow> bool \<times> printed list
     \<Rightarrow> (bool \<times> printed list) option" where
  "searchNotesFullText_for h [] searchText (found, out) = Some (found, out)"
| "searchNotesFullText_for h (note # notes) searchText (found, out) =
     (case KMPSearch (toLowerCase (fullText (h note))) (toLowerCase searchText) of
        None \<Rightarrow> None
      | Some True \<Rightarrow> searchNotesFullText_for h notes searchText (True, out @ [Display note])
      | Some False \<Rightarrow> searchNotesFullText_for h notes searchText (found, out))"

definition searchNotesFullText ::
  "(ptr \<Rightarrow> note_item) \<Rightarrow> ptr list \<Rightarrow> string \<Rightarrow> printed list option" where
  "searchNotesFullText h notes searchText =
     (let out = [Line (newline @ ''Searching all note fields for: '' @ searchText @ newline
                   @ newline @ '' '')]
      in case searchNotesFullText_for h notes searchText (False, out) of
           None \<Rightarrow> None
         | Some (found, out) \<Rightarrow>
             Some (if \<not> found then out @ [Line ''No matching notes found.''] else out))"

section \<open>Creating notes\<close>

text \<open>
  An input string stream, as far as \<^verbatim>\<open>getline\<close> sees it: the characters not yet read
  and the two state bits \<^verbatim>\<open>eofbit\<close> and \<^verbatim>\<open>failbit\<close>.
\<close>

record istream =
  buf :: string
  eofbit :: bool
  failbit :: bool

definition stringstream :: "string \<Rightarrow> istream" where
  "stringstream s = \<lparr>buf = s, eofbit = False, failbit = False\<rparr>"

text \<open>
  \<^verbatim>\<open>getline(stream, str, delimiter)\<close> of the C++ library. On a stream that is not good
  it sets \<^verbatim>\<open>failbit\<close> and leaves \<^verbatim>\<open>str\<close>. Otherwise it empties \<^verbatim>\<open>str\<close> and
  moves characters into it until it has taken the delimiter out of the stream (the
  delimiter is not stored) or the stream ends, which sets \<^verbatim>\<open>eofbit\<close>; when it took
  no character at all it sets \<^verbatim>\<open>failbit\<close>. The result is the stream and \<^verbatim>\<open>str\<close>;
  as a condition, the call is true when \<^verbatim>\<open>failbit\<close> is not set afterwards.
\<close>

definition getline :: "istream \<Rightarrow> string \<Rightarrow> char \<Rightarrow> istream \<times> string" where
  "getline stream str delimiter =
     (if eofbit stream \<or> failbit stream then (stream\<lparr>failbit := True\<rparr>, str)
      else
        (let token = takeWhile (\<lambda>c. c \<noteq> delimiter) (buf stream);
             rest = dropWhile (\<lambda>c. c \<noteq> delimiter) (buf stream)
         in case rest of
              [] \<Rightarrow> (\<lparr>buf = [], eofbit = True, failbit = (token = [])\<rparr>, token)
            | d # rest' \<Rightarrow> (\<lparr>buf = rest', eofbit = False, failbit = False\<rparr>, token)))"

lemma getline_shorter:
  assumes g: "getline stream str delimiter = (stream', str')" and ok: "\<not> failbit stream'"
  shows "length (buf stream') < length (buf stream)"
proof -
  let ?t = "takeWhile (\<lambda>c. c \<noteq> delimiter) (buf stream)"
  let ?r = "dropWhile (\<lambda>c. c \<noteq> delimiter) (buf stream)"
  have len: "length ?t + length ?r = length (buf stream)"
    by (metis length_append takeWhile_dropWhile_id)
  from g have s': "stream' = fst (getline stream str delimiter)" by simp
  from ok have good: "\<not> (eofbit stream \<or> failbit stream)"
    unfolding s' by (auto simp: getline_def)
  then have unf: "getline stream str delimiter =
      (case ?r of
         [] \<Rightarrow> (\<lparr>buf = [], eofbit = True, failbit = (?t = [])\<rparr>, ?t)
       | d # rest' \<Rightarrow> (\<lparr>buf = rest', eofbit = False, failbit = False\<rparr>, ?t))"
    by (simp add: getline_def Let_def)
  show ?thesis
  proof (cases ?r)
    case Nil
    have "stream' = \<lparr>buf = [], eofbit = True, failbit = (?t = [])\<rparr>"
      unfolding s' unf Nil by simp
    with ok have "buf stream' = []" "?t \<noteq> []" by auto
    with len show ?thesis by (cases ?t) auto
  next
    case (Cons d rest')
    have "buf stream' = rest'"
      unfolding s' unf Cons by simp
    with len Cons show ?thesis by simp
  qed
qed

text \<open>
  \<^verbatim>\<open>split(s, delimiter)\<close>: the loop
  \<^verbatim>\<open>while (getline(tokenStream, token, delimiter)) tokens.push_back(token)\<close>.
\<close>

function split_while :: "istream \<Rightarrow> string \<Rightarrow> char \<Rightarrow> string list \<Rightarrow> string list" where
  "split_while tokenStream token delimiter tokens =
     (case getline tokenStream token delimiter of
        (tokenStream', token') \<Rightarrow>
          if \<not> failbit tokenStream'
          then split_while tokenStream' token' delimiter (tokens @ [token'])
          else tokens)"
  by pat_completeness auto
termination
  by (relation "measure (\<lambda>(tokenStream, token, delimiter, tokens). length (buf tokenStream))")
    (auto dest: getline_shorter [OF sym])

declare split_while.simps [simp del]

definition split :: "string \<Rightarrow> char \<Rightarrow> string list" where
  "split s delimiter = split_while (stringstream s) [] delimiter []"

text \<open>
  \<^verbatim>\<open>addNote\<close>. Its arguments are what it reads from \<^verbatim>\<open>cin\<close>: the type, the title,
  the description, the line of tags and, for a protected note, the password. The
  result is the note it appends to \<^verbatim>\<open>items\<close>; for a type other than 1, 2 and 3 it
  appends nothing. The vector \<^verbatim>\<open>tags\<close> of the source is \<open>tagsv\<close>, since \<open>tags\<close>
  is the field of a note here.
\<close>

function addNote_while :: "istream \<Rightarrow> string \<Rightarrow> string list \<Rightarrow> string list" where
  "addNote_while ss tag tagsv =
     (case getline ss tag CHR '','' of
        (ss', tag') \<Rightarrow>
          if \<not> failbit ss'
          then (let tag'' = (if tag' = [] then ''generic'' else tag')
                in addNote_while ss' tag'' (tagsv @ [tag'']))
          else tagsv)"
  by pat_completeness auto
termination
  by (relation "measure (\<lambda>(ss, tag, tagsv). length (buf ss))")
    (auto dest: getline_shorter [OF sym])

declare addNote_while.simps [simp del]

definition addNote ::
  "int \<Rightarrow> string \<Rightarrow> string \<Rightarrow> string \<Rightarrow> string \<Rightarrow> note_item option" where
  "addNote type titleInput descriptionInput tagsInput passwordInput =
     (let tagsv = addNote_while (stringstream tagsInput) [] []
      in if type = 2 then Some (ProtectedNote titleInput descriptionInput tagsv passwordInput)
         else if type = 1 then Some (PublicNote titleInput descriptionInput tagsv)
         else if type = 3 then Some (Note titleInput descriptionInput tagsv)
         else None)"

text \<open>
  The branch of \<^verbatim>\<open>loadDataFromFile\<close> for the lines whose first field is
  \<^verbatim>\<open>Note\<close>, \<^verbatim>\<open>ProtectedNote\<close> or \<^verbatim>\<open>PublicNote\<close>. The variables \<^verbatim>\<open>title\<close>,
  \<^verbatim>\<open>description\<close>, \<^verbatim>\<open>tags\<close> and \<^verbatim>\<open>password\<close> are declared before the loop over
  the lines, so a \<^verbatim>\<open>getline\<close> that fails leaves the value of an earlier line in them:
  they are an argument and a result (with a \<open>v\<close> added to their names, which are
  the fields of a note here). The first \<^verbatim>\<open>getline\<close> of a line reads from a new stream, which is good, so it
  empties \<^verbatim>\<open>type\<close> whatever it held. The branches for tasks and goals are not part of
  this model, and a line of theirs gives no note.
\<close>

record loader_vars =
  v_title :: string
  v_description :: string
  v_tags :: string
  v_password :: string

definition loadDataFromFile_note ::
  "loader_vars \<Rightarrow> string \<Rightarrow> loader_vars \<times> note_item option" where
  "loadDataFromFile_note vars line =
     (let ss = stringstream line;
          (ss, type) = getline ss [] CHR '','' in
      if type = ''Note'' \<or> type = ''ProtectedNote'' \<or> type = ''PublicNote'' then
        (let (ss, titlev) = getline ss (v_title vars) CHR '','';
             (ss, descriptionv) = getline ss (v_description vars) CHR '','';
             (ss, tagsv) = getline ss (v_tags vars) CHR '','' in
         if type = ''ProtectedNote'' then
           (let (ss, passwordv) = getline ss (v_password vars) CHR 0x0A;
                tagList = split tagsv CHR '',''
            in (\<lparr>v_title = titlev, v_description = descriptionv, v_tags = tagsv,
                  v_password = passwordv\<rparr>,
                Some (ProtectedNote titlev descriptionv tagList passwordv)))
         else if type = ''PublicNote'' then
           (let tagList = split tagsv CHR '',''
            in (\<lparr>v_title = titlev, v_description = descriptionv, v_tags = tagsv,
                  v_password = v_password vars\<rparr>,
                Some (PublicNote titlev descriptionv tagList)))
         else
           (let tagList = split tagsv CHR '',''
            in (\<lparr>v_title = titlev, v_description = descriptionv, v_tags = tagsv,
                  v_password = v_password vars\<rparr>,
                Some (Note titlev descriptionv tagList))))
      else (vars, None))"

section \<open>Auxiliary notions for the proofs\<close>

subsection \<open>Heap sort\<close>

text \<open>
  The index \<^verbatim>\<open>largest\<close> that \<^verbatim>\<open>heapify\<close> has computed when it reaches its last
  test: \<open>i\<close> itself, or the child of \<open>i\<close> it will swap with.
\<close>

definition heapify_largest :: "(ptr \<Rightarrow> goal) \<Rightarrow> ptr list \<Rightarrow> nat \<Rightarrow> nat \<Rightarrow> nat" where
  "heapify_largest h goals n i =
     (let l = (if 2 * i + 1 < n
                  \<and> getProgress (h (goals ! (2 * i + 1))) > getProgress (h (goals ! i))
                  \<and> getProgress (h (goals ! (2 * i + 1))) \<noteq> - 1
               then 2 * i + 1 else i)
      in if 2 * i + 2 < n
            \<and> getProgress (h (goals ! (2 * i + 2))) > getProgress (h (goals ! l))
            \<and> getProgress (h (goals ! (2 * i + 2))) \<noteq> - 1
         then 2 * i + 2 else l)"

text \<open>
  Heap order at node \<open>j\<close> of the heap \<open>gs[0..n)\<close>: no child of \<open>j\<close> inside the
  heap has more progress than \<open>j\<close>.
\<close>

definition child_ok :: "(ptr \<Rightarrow> goal) \<Rightarrow> ptr list \<Rightarrow> nat \<Rightarrow> nat \<Rightarrow> bool" where
  "child_ok h gs n j \<longleftrightarrow>
     (\<forall>c. c < n \<and> (c = 2 * j + 1 \<or> c = 2 * j + 2)
        \<longrightarrow> getProgress (h (gs ! c)) \<le> getProgress (h (gs ! j)))"

text \<open>
  The goals of the ranking scenario: progress 0.5, a non-quantifiable goal, progress
  0.9, a second non-quantifiable goal, at the addresses 0 to 3.
\<close>

definition scenario_goals :: "ptr \<Rightarrow> goal" where
  "scenario_goals p =
     (if p = 0 then QuantifiableGoal ''Read'' ''ten books'' (1 / 2)
      else if p = 1 then NonQuantifiableGoal ''Calm'' ''be patient'' 0
      else if p = 2 then QuantifiableGoal ''Run'' ''a marathon'' (9 / 10)
      else NonQuantifiableGoal ''Kind'' ''be kind'' 0)"

text \<open>Two goals, the first with a stored progress below the sentinel.\<close>

definition below_sentinel_goals :: "ptr \<Rightarrow> goal" where
  "below_sentinel_goals p =
     (if p = 0 then Goal ''Debt'' ''pay it'' (- 2)
      else NonQuantifiableGoal ''Calm'' ''be patient'' 0)"

subsection \<open>Merge sort\<close>

text \<open>
  Merging two lists by a key, the left element first when the keys are equal: what the
  three loops of \<^verbatim>\<open>merge\<close> write into \<^verbatim>\<open>tasks[left..right]\<close>.
\<close>

fun merged :: "('a \<Rightarrow> 'k::linorder) \<Rightarrow> 'a list \<Rightarrow> 'a list \<Rightarrow> 'a list" where
  "merged key [] ys = ys"
| "merged key (x # xs) [] = x # xs"
| "merged key (x # xs) (y # ys) =
     (if key x \<le> key y then x # merged key xs (y # ys) else y # merged key (x # xs) ys)"

text \<open>The three loops of \<^verbatim>\<open>merge\<close>, one after the other.\<close>

definition merge_loops ::
  "(ptr \<Rightarrow> task) \<Rightarrow> ptr list \<Rightarrow> ptr list \<Rightarrow> ptr list \<Rightarrow> int \<Rightarrow> int \<Rightarrow> int \<Rightarrow> ptr list" where
  "merge_loops h L R tasks i j k =
     (let (tasks, i, j, k) = merge_while1 h L R (int (length L)) (int (length R)) tasks i j k;
          (tasks, i, k) = merge_while2 L (int (length L)) tasks i k;
          (tasks, j, k) = merge_while3 R (int (length R)) tasks j k
      in tasks)"

text \<open>The three loops of \<^verbatim>\<open>mergeByDeadline\<close>, one after the other.\<close>

definition mergeByDeadline_loops ::
  "(ptr \<Rightarrow> task) \<Rightarrow> ptr list \<Rightarrow> ptr list \<Rightarrow> ptr list \<Rightarrow> int \<Rightarrow> int \<Rightarrow> int \<Rightarrow> ptr list" where
  "mergeByDeadline_loops h L R tasks i j k =
     (let (tasks, i, j, k) = mergeByDeadline_while1 h L R (int (length L)) (int (length R)) tasks i j k;
          (tasks, i, k) = mergeByDeadline_while2 L (int (length L)) tasks i k;
          (tasks, j, k) = mergeByDeadline_while3 R (int (length R)) tasks j k
      in tasks)"

text \<open>
  The tasks of the ordering scenario, at the addresses 0 to 2, and two more tasks with
  the priority of the third one.
\<close>

definition scenario_tasks :: "ptr \<Rightarrow> task" where
  "scenario_tasks p =
     (if p = 0 then Task ''Report'' ''write it'' ''2024-05-01'' 5
      else if p = 1 then OneTimeTask ''Taxes'' ''file them'' ''2024-01-10'' 1
      else if p = 2 then RecurringTask ''Backup'' ''run it'' ''2024-03-15'' 3 ''weekly''
      else if p = 3 then Task ''Call'' ''the bank'' ''2024-03-15'' 3
      else Task ''Tidy'' ''the desk'' ''No Deadline'' 3)"

subsection \<open>String search\<close>

text \<open>
  \<open>pmatch s p i j\<close>: the first \<open>j\<close> characters of \<open>p\<close> are the \<open>j\<close> characters
  of \<open>s\<close> before position \<open>i\<close>.
\<close>

definition pmatch :: "'a list \<Rightarrow> 'a list \<Rightarrow> nat \<Rightarrow> nat \<Rightarrow> bool" where
  "pmatch s p i j \<longleftrightarrow> j \<le> i \<and> (\<forall>t<j. p ! t = s ! (i - j + t))"

text \<open>
  \<open>border p q k\<close>: the first \<open>k\<close> characters of \<open>p\<close> are also the last \<open>k\<close> of
  its first \<open>q\<close> characters, and \<open>k < q\<close>.
\<close>

definition border :: "'a list \<Rightarrow> nat \<Rightarrow> nat \<Rightarrow> bool" where
  "border p q k \<longleftrightarrow> k < q \<and> pmatch p p q k"

text \<open>
  The first \<open>q\<close> entries of the table are right: entry \<open>r\<close> is the length of the
  longest border of the first \<open>r + 1\<close> characters of the pattern.
\<close>

definition lps_ok :: "'a list \<Rightarrow> nat list \<Rightarrow> nat \<Rightarrow> bool" where
  "lps_ok p lps q \<longleftrightarrow>
     (\<forall>r<q. border p (r + 1) (lps ! r) \<and> (\<forall>k. border p (r + 1) k \<longrightarrow> k \<le> lps ! r))"

text \<open>\<open>p\<close> stands in \<open>s\<close> at position \<open>a\<close>.\<close>

definition occurs_at :: "'a list \<Rightarrow> 'a list \<Rightarrow> nat \<Rightarrow> bool" where
  "occurs_at s p a \<longleftrightarrow> a + length p \<le> length s \<and> (\<forall>t<length p. s ! (a + t) = p ! t)"

text \<open>The invariants of the two loops.\<close>

definition table_inv :: "'a list \<Rightarrow> nat list \<Rightarrow> nat \<Rightarrow> nat \<Rightarrow> bool" where
  "table_inv p lps len i \<longleftrightarrow>
     length lps = length p \<and> 1 \<le> i \<and> i \<le> length p \<and> lps_ok p lps i \<and> border p i len
     \<and> (\<forall>k. border p i k \<and> p ! k = p ! i \<longrightarrow> k \<le> len)"

definition search_inv :: "'a list \<Rightarrow> 'a list \<Rightarrow> nat \<Rightarrow> nat \<Rightarrow> bool" where
  "search_inv s p i j \<longleftrightarrow>
     j < length p \<and> i \<le> length s \<and> pmatch s p i j
     \<and> (\<forall>a. a + j < i \<longrightarrow> \<not> occurs_at s p a)"

text \<open>
  The notes of the search scenarios, at the addresses 0 to 2.
\<close>

definition scenario_notes :: "ptr \<Rightarrow> note_item" where
  "scenario_notes p =
     (if p = 0 then Note ''Daily Standup'' ''notes about Project'' [''Apollo'']
      else if p = 1
      then ProtectedNote ''Personal Diary'' ''private'' [''work'', ''urgent''] ''password123''
      else PublicNote ''Recipe'' ''soup'' [])"

section \<open>Progress of a goal\<close>

text \<open>
  Claim C7. A \<^verbatim>\<open>NonQuantifiableGoal\<close> answers \<^verbatim>\<open>getProgress()\<close> with the sentinel
  -1 whatever progress is stored in it; a \<^verbatim>\<open>Goal\<close> and a \<^verbatim>\<open>QuantifiableGoal\<close> answer
  with the stored progress.
\<close>

theorem getProgress_by_class:
  "getProgress (NonQuantifiableGoal t d p) = - 1
   \<and> getProgress (Goal t d p) = p
   \<and> getProgress (QuantifiableGoal t d p) = p"
  by simp

section \<open>Detail text of a note: the two cases\<close>

lemma foldl_tags_joined:
  "ts \<noteq> [] \<Longrightarrow>
   foldl (\<lambda>details tag. details @ (tag @ '', '')) h ts = h @ joined ts @ '', ''"
proof (induction ts arbitrary: h rule: joined.induct)
  case 1
  then show ?case by simp
next
  case (2 t)
  show ?case by simp
next
  case (3 t u ts)
  have "foldl (\<lambda>details tag. details @ (tag @ '', '')) h (t # u # ts)
        = foldl (\<lambda>details tag. details @ (tag @ '', '')) (h @ t @ '', '') (u # ts)"
    by simp
  also have "\<dots> = (h @ t @ '', '') @ joined (u # ts) @ '', ''"
    by (rule "3.IH") simp
  finally show ?case by simp
qed

lemma butlast2_comma_space: "butlast (butlast (xs @ '', '')) = xs"
proof -
  have "xs @ '', '' = (xs @ '','') @ '' ''" by simp
  then have "butlast (xs @ '', '') = xs @ '',''"
    by (metis butlast_snoc)
  then show ?thesis by (simp add: butlast_append)
qed

text \<open>
  Claim C10. For a note with at least one tag, \<^verbatim>\<open>Note::getDetails\<close> is the header
  \<^verbatim>\<open>"Title: " + title + "\nDescription: " + description + "\nTags: "\<close> followed by
  the tags joined by \<^verbatim>\<open>", "\<close>, with no separator at the end. For a note with no tag
  the two characters removed are the last two of the header, and the text ends in
  \<^verbatim>\<open>"Tags"\<close>.
\<close>

theorem Note_getDetails_cases:
  "(tags n \<noteq> [] \<longrightarrow>
      Note_getDetails n =
        ''Title: '' @ title n @ newline @ ''Description: '' @ description n @ newline
          @ ''Tags: '' @ joined (tags n))
   \<and> (tags n = [] \<longrightarrow>
      Note_getDetails n =
        ''Title: '' @ title n @ newline @ ''Description: '' @ description n @ newline
          @ ''Tags'')"
proof (intro conjI impI)
  assume ne: "tags n \<noteq> []"
  let ?h = "''Title: '' @ title n @ newline @ ''Description: '' @ description n
              @ newline @ ''Tags: ''"
  have "Note_getDetails n = butlast (butlast ((?h @ joined (tags n)) @ '', ''))"
    unfolding Note_getDetails_def Let_def foldl_tags_joined [OF ne] by simp
  also have "\<dots> = ?h @ joined (tags n)"
    by (rule butlast2_comma_space)
  finally show "Note_getDetails n =
        ''Title: '' @ title n @ newline @ ''Description: '' @ description n @ newline
          @ ''Tags: '' @ joined (tags n)"
    by simp
next
  assume e: "tags n = []"
  show "Note_getDetails n =
        ''Title: '' @ title n @ newline @ ''Description: '' @ description n @ newline
          @ ''Tags''"
    by (simp add: Note_getDetails_def e butlast_append)
qed

theorem Note_getDetails_cases_witness:
  "tags (Note ''Standup'' ''notes'' [''work'', ''urgent'']) \<noteq> []
   \<and> Note_getDetails (Note ''Standup'' ''notes'' [''work'', ''urgent''])
       = ''Title: Standup'' @ newline @ ''Description: notes'' @ newline
           @ ''Tags: work, urgent''
   \<and> tags (PublicNote ''Idea'' '''' []) = []
   \<and> Note_getDetails (PublicNote ''Idea'' '''' [])
       = ''Title: Idea'' @ newline @ ''Description: '' @ newline @ ''Tags''"
  using Note_getDetails_cases [of "Note ''Standup'' ''notes'' [''work'', ''urgent'']"]
    Note_getDetails_cases [of "PublicNote ''Idea'' '''' []"]
  by simp

section \<open>Heap sort: permutation and order\<close>

subsection \<open>Swapping two cells\<close>

lemma length_swap [simp]: "length (swap xs i j) = length xs"
  by (simp add: swap_def)

lemma swap_nth_fst: "i < length xs \<Longrightarrow> j < length xs \<Longrightarrow> swap xs i j ! i = xs ! j"
  by (cases "i = j") (simp_all add: swap_def)

lemma swap_nth_snd: "j < length xs \<Longrightarrow> swap xs i j ! j = xs ! i"
  by (simp add: swap_def)

lemma swap_nth_other: "a \<noteq> i \<Longrightarrow> a \<noteq> j \<Longrightarrow> swap xs i j ! a = xs ! a"
  by (simp add: swap_def)

lemma mset_swap_vec: "i < length xs \<Longrightarrow> j < length xs \<Longrightarrow> mset (swap xs i j) = mset xs"
  unfolding swap_def by (rule mset_swap)

lemma heapify_unfold:
  "heapify h goals n i =
     (if heapify_largest h goals n i \<noteq> i
      then heapify h (swap goals i (heapify_largest h goals n i)) n (heapify_largest h goals n i)
      else goals)"
  by (subst heapify.simps) (simp only: heapify_largest_def Let_def)

lemma heapify_largest_range:
  "heapify_largest h goals n i \<noteq> i \<Longrightarrow>
   i < heapify_largest h goals n i \<and> heapify_largest h goals n i < n
   \<and> (heapify_largest h goals n i = 2 * i + 1 \<or> heapify_largest h goals n i = 2 * i + 2)"
  by (auto simp: heapify_largest_def Let_def split: if_splits)

lemma heapify_induct2 [consumes 0, case_names step]:
  assumes step: "\<And>goals i.
     (heapify_largest h goals n i \<noteq> i \<Longrightarrow>
        P (swap goals i (heapify_largest h goals n i)) (heapify_largest h goals n i))
     \<Longrightarrow> P goals i"
  shows "P goals i"
proof (induction "n - i" arbitrary: goals i rule: less_induct)
  case less
  show ?case
  proof (rule step)
    assume ne: "heapify_largest h goals n i \<noteq> i"
    from heapify_largest_range [OF ne]
    have "n - heapify_largest h goals n i < n - i" by arith
    then show "P (swap goals i (heapify_largest h goals n i)) (heapify_largest h goals n i)"
      by (rule less)
  qed
qed

lemma heapify_mset: "n \<le> length goals \<Longrightarrow> mset (heapify h goals n i) = mset goals"
proof (induction goals i rule: heapify_induct2 [where h = h and n = n])
  case (step goals i)
  show ?case
  proof (cases "heapify_largest h goals n i = i")
    case True
    then show ?thesis by (subst heapify_unfold) simp
  next
    case False
    from heapify_largest_range [OF False] step.prems
    have r: "i < length goals" "heapify_largest h goals n i < length goals" by arith+
    have "mset (heapify h goals n i)
          = mset (swap goals i (heapify_largest h goals n i))"
      using step.IH [OF False] step.prems False by (subst heapify_unfold) simp
    also have "\<dots> = mset goals" using r by (rule mset_swap_vec)
    finally show ?thesis .
  qed
qed

lemma heapify_length [simp]: "n \<le> length goals \<Longrightarrow> length (heapify h goals n i) = length goals"
  using heapify_mset [of n goals h i] by (metis size_mset)

lemma heapSort_build_mset:
  "n \<le> length goals \<Longrightarrow> mset (heapSort_build h goals n i) = mset goals"
proof (induction h goals n i rule: heapSort_build.induct)
  case (1 h goals n i)
  show ?case
  proof (cases "i \<ge> 0")
    case True
    have "mset (heapSort_build h goals n i)
          = mset (heapSort_build h (heapify h goals n (nat i)) n (i - 1))"
      using True by (subst heapSort_build.simps) simp
    also have "\<dots> = mset (heapify h goals n (nat i))"
      using "1.IH" [OF True] "1.prems" by simp
    also have "\<dots> = mset goals" using "1.prems" by (rule heapify_mset)
    finally show ?thesis .
  next
    case False
    then show ?thesis by (subst heapSort_build.simps) simp
  qed
qed

lemma heapSort_extract_mset:
  "i < int (length goals) \<Longrightarrow> mset (heapSort_extract h goals i) = mset goals"
proof (induction h goals i rule: heapSort_extract.induct)
  case (1 h goals i)
  show ?case
  proof (cases "i \<ge> 0")
    case True
    let ?s = "swap goals 0 (nat i)"
    let ?g = "heapify h ?s (nat i) 0"
    from True "1.prems" have r: "0 < length goals" "nat i < length goals" by arith+
    have ms: "mset ?s = mset goals" using r by (rule mset_swap_vec)
    have mg: "mset ?g = mset ?s" using r by (intro heapify_mset) simp
    have lg: "length ?g = length goals" using ms mg by (metis size_mset)
    have "mset (heapSort_extract h goals i) = mset (heapSort_extract h ?g (i - 1))"
      using True by (subst heapSort_extract.simps) simp
    also have "\<dots> = mset ?g"
      using "1.IH" [OF True] "1.prems" lg by simp
    finally show ?thesis using ms mg by simp
  next
    case False
    then show ?thesis by (subst heapSort_extract.simps) simp
  qed
qed

lemma heapSort_mset: "mset (heapSort h goals) = mset goals"
proof -
  let ?b = "heapSort_build h goals (length goals) (int (length goals) div 2 - 1)"
  have b: "mset ?b = mset goals" by (rule heapSort_build_mset) simp
  then have "length ?b = length goals" by (metis size_mset)
  then have "mset (heapSort_extract h ?b (int (length goals) - 1)) = mset ?b"
    by (intro heapSort_extract_mset) simp
  with b show ?thesis by (simp add: heapSort_def Let_def)
qed

lemma set_swap_vec: "i < length xs \<Longrightarrow> j < length xs \<Longrightarrow> set (swap xs i j) = set xs"
  using mset_swap_vec [of i xs j] by (metis set_mset_mset)

lemma heapify_set: "n \<le> length goals \<Longrightarrow> set (heapify h goals n i) = set goals"
  using heapify_mset [of n goals h i] by (metis set_mset_mset)

lemma heapify_largest_max:
  assumes n: "n \<le> length gs" and lb: "\<forall>p\<in>set gs. - 1 \<le> getProgress (h p)"
    and c: "c < n" "c = i \<or> c = 2 * i + 1 \<or> c = 2 * i + 2"
  shows "getProgress (h (gs ! c)) \<le> getProgress (h (gs ! heapify_largest h gs n i))"
proof -
  have b: "- 1 \<le> getProgress (h (gs ! a))" if "a < n" for a
    using that n lb by simp
  have b1: "2 * i + 1 < n \<Longrightarrow> - 1 \<le> getProgress (h (gs ! (2 * i + 1)))"
    and b2: "2 * i + 2 < n \<Longrightarrow> - 1 \<le> getProgress (h (gs ! (2 * i + 2)))"
    and b0: "i < n \<Longrightarrow> - 1 \<le> getProgress (h (gs ! i))"
    using b by blast+
  from c b0 b1 b2 show ?thesis
    by (auto simp: heapify_largest_def Let_def)
qed

lemma heapify_restores_heap:
  assumes "n \<le> length gs"
    and "\<forall>p\<in>set gs. - 1 \<le> getProgress (h p)"
    and "k \<le> i"
    and "\<forall>j. k \<le> j \<and> j < n \<and> j \<noteq> i \<longrightarrow> child_ok h gs n j"
    and "\<forall>c. 0 < i \<and> k \<le> (i - 1) div 2 \<and> c < n \<and> (c = 2 * i + 1 \<or> c = 2 * i + 2)
           \<longrightarrow> getProgress (h (gs ! c)) \<le> getProgress (h (gs ! ((i - 1) div 2)))"
  shows "\<forall>j. k \<le> j \<and> j < n \<longrightarrow> child_ok h (heapify h gs n i) n j"
  using assms
proof (induction gs i rule: heapify_induct2 [where h = h and n = n])
  case (step gs i)
  let ?l = "heapify_largest h gs n i"
  note n = step.prems(1) and lb = step.prems(2) and ki = step.prems(3)
    and others = step.prems(4) and above = step.prems(5)
  show ?case
  proof (cases "?l = i")
    case True
    then have same: "heapify h gs n i = gs" by (subst heapify_unfold) simp
    have "child_ok h gs n i"
      unfolding child_ok_def
    proof (intro allI impI)
      fix c assume "c < n \<and> (c = 2 * i + 1 \<or> c = 2 * i + 2)"
      then have "getProgress (h (gs ! c)) \<le> getProgress (h (gs ! ?l))"
        using heapify_largest_max [OF n lb, of c i] by blast
      then show "getProgress (h (gs ! c)) \<le> getProgress (h (gs ! i))"
        using True by simp
    qed
    with others show ?thesis unfolding same by blast
  next
    case False
    from heapify_largest_range [OF False]
    have il: "i < ?l" and ln: "?l < n" and lc: "?l = 2 * i + 1 \<or> ?l = 2 * i + 2"
      by blast+
    from il ln n have bi: "i < length gs" and bl: "?l < length gs" by arith+
    let ?s = "swap gs i ?l"
    have unfold: "heapify h gs n i = heapify h ?s n ?l"
      using False by (subst heapify_unfold) simp
    have si: "?s ! i = gs ! ?l" using bi bl by (rule swap_nth_fst)
    have sl: "?s ! ?l = gs ! i" using bl by (rule swap_nth_snd)
    have so: "?s ! a = gs ! a" if "a \<noteq> i" "a \<noteq> ?l" for a
      using that by (rule swap_nth_other)
    have parent: "(?l - 1) div 2 = i" using lc by auto
    have p1: "n \<le> length ?s" using n by simp
    have p2: "\<forall>p\<in>set ?s. - 1 \<le> getProgress (h p)"
      using lb set_swap_vec [OF bi bl] by simp
    have p3: "k \<le> ?l" using ki il by arith
    have p4: "\<forall>j. k \<le> j \<and> j < n \<and> j \<noteq> ?l \<longrightarrow> child_ok h ?s n j"
    proof (intro allI impI)
      fix j assume j: "k \<le> j \<and> j < n \<and> j \<noteq> ?l"
      show "child_ok h ?s n j"
        unfolding child_ok_def
      proof (intro allI impI)
        fix c assume c: "c < n \<and> (c = 2 * j + 1 \<or> c = 2 * j + 2)"
        show "getProgress (h (?s ! c)) \<le> getProgress (h (?s ! j))"
        proof (cases "j = i")
          case True
          have top: "getProgress (h (gs ! c)) \<le> getProgress (h (gs ! ?l))"
            using heapify_largest_max [OF n lb, of c i] c True by blast
          have root: "getProgress (h (gs ! i)) \<le> getProgress (h (gs ! ?l))"
            using heapify_largest_max [OF n lb, of i i] il ln by simp
          show ?thesis
          proof (cases "c = ?l")
            case True
            with root si sl \<open>j = i\<close> show ?thesis by simp
          next
            case False
            moreover from c \<open>j = i\<close> have "c \<noteq> i" by auto
            ultimately have "?s ! c = gs ! c" by (intro so)
            with top si \<open>j = i\<close> show ?thesis by simp
          qed
        next
          case False
          from c lc False have cl: "c \<noteq> ?l" by auto
          from j False have sj: "?s ! j = gs ! j" by (intro so) auto
          show ?thesis
          proof (cases "c = i")
            case True
            with c have "0 < i" "(i - 1) div 2 = j" by auto
            with above j ln lc
            have "getProgress (h (gs ! ?l)) \<le> getProgress (h (gs ! j))"
              by blast
            with si sj True show ?thesis by simp
          next
            case False
            with cl have "?s ! c = gs ! c" by (intro so)
            moreover from others j \<open>j \<noteq> i\<close> have "child_ok h gs n j" by blast
            ultimately show ?thesis using c sj unfolding child_ok_def by auto
          qed
        qed
      qed
    qed
    have p5: "\<forall>c. 0 < ?l \<and> k \<le> (?l - 1) div 2 \<and> c < n \<and> (c = 2 * ?l + 1 \<or> c = 2 * ?l + 2)
           \<longrightarrow> getProgress (h (?s ! c)) \<le> getProgress (h (?s ! ((?l - 1) div 2)))"
    proof (intro allI impI)
      fix c
      assume c: "0 < ?l \<and> k \<le> (?l - 1) div 2 \<and> c < n \<and> (c = 2 * ?l + 1 \<or> c = 2 * ?l + 2)"
      with il have "c \<noteq> i" "c \<noteq> ?l" by auto
      then have sc: "?s ! c = gs ! c" by (rule so)
      from others p3 ln il have "child_ok h gs n ?l" by auto
      with c have "getProgress (h (gs ! c)) \<le> getProgress (h (gs ! ?l))"
        unfolding child_ok_def by blast
      with sc si parent show "getProgress (h (?s ! c)) \<le> getProgress (h (?s ! ((?l - 1) div 2)))"
        by simp
    qed
    from step.IH [OF False p1 p2 p3 p4 p5] show ?thesis unfolding unfold .
  qed
qed

lemma heapify_above:
  "n \<le> length gs \<Longrightarrow> n \<le> a \<Longrightarrow> heapify h gs n i ! a = gs ! a"
proof (induction gs i rule: heapify_induct2 [where h = h and n = n])
  case (step gs i)
  let ?l = "heapify_largest h gs n i"
  show ?case
  proof (cases "?l = i")
    case True
    then show ?thesis by (subst heapify_unfold) simp
  next
    case False
    from heapify_largest_range [OF False] step.prems
    have "a \<noteq> i" "a \<noteq> ?l" by arith+
    then have "swap gs i ?l ! a = gs ! a" by (rule swap_nth_other)
    moreover have "heapify h gs n i = heapify h (swap gs i ?l) n ?l"
      using False by (subst heapify_unfold) simp
    ultimately show ?thesis using step.IH [OF False] step.prems by simp
  qed
qed

lemma heapify_below:
  "n \<le> length gs \<Longrightarrow> a < n \<Longrightarrow> \<exists>b<n. heapify h gs n i ! a = gs ! b"
proof (induction gs i rule: heapify_induct2 [where h = h and n = n])
  case (step gs i)
  let ?l = "heapify_largest h gs n i"
  show ?case
  proof (cases "?l = i")
    case True
    then have "heapify h gs n i = gs" by (subst heapify_unfold) simp
    with step.prems show ?thesis by auto
  next
    case False
    from heapify_largest_range [OF False]
    have il: "i < ?l" and ln: "?l < n" by blast+
    with step.prems have bi: "i < length gs" and bl: "?l < length gs" by arith+
    have unfold: "heapify h gs n i = heapify h (swap gs i ?l) n ?l"
      using False by (subst heapify_unfold) simp
    from step.IH [OF False] step.prems
    obtain b where b: "b < n" "heapify h (swap gs i ?l) n ?l ! a = swap gs i ?l ! b"
      by auto
    have "\<exists>b'<n. swap gs i ?l ! b = gs ! b'"
    proof (cases "b = i")
      case True
      then have "swap gs i ?l ! b = gs ! ?l" using bi bl by (simp add: swap_nth_fst)
      with ln show ?thesis by blast
    next
      case bi': False
      show ?thesis
      proof (cases "b = ?l")
        case True
        then have "swap gs i ?l ! b = gs ! i" using bl by (simp add: swap_nth_snd)
        moreover from il ln have "i < n" by arith
        ultimately show ?thesis by blast
      next
        case False
        with bi' have "swap gs i ?l ! b = gs ! b" by (rule swap_nth_other)
        with b show ?thesis by blast
      qed
    qed
    with b unfold show ?thesis by auto
  qed
qed

lemma heap_root_max:
  assumes heap: "\<forall>j. j < n \<longrightarrow> child_ok h gs n j"
  shows "j < n \<Longrightarrow> getProgress (h (gs ! j)) \<le> getProgress (h (gs ! 0))"
proof (induction j rule: less_induct)
  case (less j)
  show ?case
  proof (cases "j = 0")
    case True
    then show ?thesis by simp
  next
    case False
    let ?p = "(j - 1) div 2"
    from False have pj: "?p < j" and jc: "j = 2 * ?p + 1 \<or> j = 2 * ?p + 2" by arith+
    from pj less.prems have pn: "?p < n" by arith
    with heap have "child_ok h gs n ?p" by blast
    with jc less.prems have "getProgress (h (gs ! j)) \<le> getProgress (h (gs ! ?p))"
      unfolding child_ok_def by blast
    also have "\<dots> \<le> getProgress (h (gs ! 0))" using pj pn by (rule less.IH)
    finally show ?thesis .
  qed
qed

lemma heapSort_build_heap:
  assumes "n \<le> length gs"
    and "\<forall>p\<in>set gs. - 1 \<le> getProgress (h p)"
    and "\<forall>j. k \<le> j \<and> j < n \<longrightarrow> child_ok h gs n j"
  shows "\<forall>j. j < n \<longrightarrow> child_ok h (heapSort_build h gs n (int k - 1)) n j"
  using assms
proof (induction k arbitrary: gs)
  case 0
  have "heapSort_build h gs n (int 0 - 1) = gs"
    by (subst heapSort_build.simps) simp
  with 0 show ?case by simp
next
  case (Suc k)
  let ?g = "heapify h gs n k"
  have unfold: "heapSort_build h gs n (int (Suc k) - 1) = heapSort_build h ?g n (int k - 1)"
    by (subst heapSort_build.simps) simp
  have "\<forall>j. k \<le> j \<and> j < n \<longrightarrow> child_ok h ?g n j"
  proof (rule heapify_restores_heap)
    show "n \<le> length gs" by (rule Suc.prems(1))
    show "\<forall>p\<in>set gs. - 1 \<le> getProgress (h p)" by (rule Suc.prems(2))
    show "k \<le> k" by simp
    show "\<forall>j. k \<le> j \<and> j < n \<and> j \<noteq> k \<longrightarrow> child_ok h gs n j"
      using Suc.prems(3) by auto
    show "\<forall>c. 0 < k \<and> k \<le> (k - 1) div 2 \<and> c < n \<and> (c = 2 * k + 1 \<or> c = 2 * k + 2)
           \<longrightarrow> getProgress (h (gs ! c)) \<le> getProgress (h (gs ! ((k - 1) div 2)))"
      by auto
  qed
  moreover have "n \<le> length ?g" using Suc.prems(1) by simp
  moreover have "\<forall>p\<in>set ?g. - 1 \<le> getProgress (h p)"
    using Suc.prems(1,2) by (simp add: heapify_set)
  ultimately show ?case unfolding unfold by (intro Suc.IH)
qed

lemma heapSort_extract_sorted:
  assumes "m \<le> length gs"
    and "\<forall>j. j < m \<longrightarrow> child_ok h gs m j"
    and "\<forall>p\<in>set gs. - 1 \<le> getProgress (h p)"
    and "\<forall>a b. m \<le> a \<and> a \<le> b \<and> b < length gs
           \<longrightarrow> getProgress (h (gs ! a)) \<le> getProgress (h (gs ! b))"
    and "\<forall>a b. a < m \<and> m \<le> b \<and> b < length gs
           \<longrightarrow> getProgress (h (gs ! a)) \<le> getProgress (h (gs ! b))"
  shows "\<forall>a b. a \<le> b \<and> b < length gs
           \<longrightarrow> getProgress (h (heapSort_extract h gs (int m - 1) ! a))
                 \<le> getProgress (h (heapSort_extract h gs (int m - 1) ! b))"
  using assms
proof (induction m arbitrary: gs)
  case 0
  have "heapSort_extract h gs (int 0 - 1) = gs"
    by (subst heapSort_extract.simps) simp
  with "0.prems"(4) show ?case by simp
next
  case (Suc m)
  note len = Suc.prems(1) and heap = Suc.prems(2) and lb = Suc.prems(3)
    and sorted_tail = Suc.prems(4) and below_tail = Suc.prems(5)
  let ?s = "swap gs 0 m"
  let ?g = "heapify h ?s m 0"
  from len have b0: "0 < length gs" and bm: "m < length gs" by arith+
  have unfold: "heapSort_extract h gs (int (Suc m) - 1) = heapSort_extract h ?g (int m - 1)"
    by (subst heapSort_extract.simps) simp
  have s0: "?s ! 0 = gs ! m" using b0 bm by (rule swap_nth_fst)
  have sm: "?s ! m = gs ! 0" using bm by (rule swap_nth_snd)
  have so: "?s ! a = gs ! a" if "a \<noteq> 0" "a \<noteq> m" for a
    using that by (rule swap_nth_other)
  have ls: "m \<le> length ?s" using len by simp
  have lg: "length ?g = length gs" using ls by simp
  have lbs: "\<forall>p\<in>set ?s. - 1 \<le> getProgress (h p)"
    using lb set_swap_vec [OF b0 bm] by simp
  have ga: "?g ! a = ?s ! a" if "m \<le> a" for a
    using ls that by (rule heapify_above)
  have root: "getProgress (h (gs ! j)) \<le> getProgress (h (gs ! 0))" if "j < Suc m" for j
    using heap that by (rule heap_root_max)
  have q1: "m \<le> length ?g" using len lg by simp
  have q2: "\<forall>j. j < m \<longrightarrow> child_ok h ?g m j"
  proof -
    have "\<forall>j. 0 \<le> j \<and> j < m \<longrightarrow> child_ok h ?g m j"
    proof (rule heapify_restores_heap [OF ls lbs])
      show "(0::nat) \<le> 0" by simp
      show "\<forall>j. 0 \<le> j \<and> j < m \<and> j \<noteq> 0 \<longrightarrow> child_ok h ?s m j"
      proof (intro allI impI)
        fix j assume j: "0 \<le> j \<and> j < m \<and> j \<noteq> 0"
        then have "child_ok h gs (Suc m) j" using heap by simp
        moreover have "?s ! j = gs ! j" using j by (intro so) auto
        moreover have "?s ! c = gs ! c" if "c < m" "c = 2 * j + 1 \<or> c = 2 * j + 2" for c
          using that by (intro so) auto
        ultimately show "child_ok h ?s m j"
          unfolding child_ok_def by auto
      qed
      show "\<forall>c. (0::nat) < 0 \<and> 0 \<le> (0 - 1) div 2 \<and> c < m \<and> (c = 2 * 0 + 1 \<or> c = 2 * 0 + 2)
             \<longrightarrow> getProgress (h (?s ! c)) \<le> getProgress (h (?s ! ((0 - 1) div 2)))"
        by simp
    qed
    then show ?thesis by simp
  qed
  have q3: "\<forall>p\<in>set ?g. - 1 \<le> getProgress (h p)"
    using lbs ls by (simp add: heapify_set)
  have q4: "\<forall>a b. m \<le> a \<and> a \<le> b \<and> b < length ?g
           \<longrightarrow> getProgress (h (?g ! a)) \<le> getProgress (h (?g ! b))"
  proof (intro allI impI)
    fix a b assume ab: "m \<le> a \<and> a \<le> b \<and> b < length ?g"
    then have ga': "?g ! a = ?s ! a" and gb': "?g ! b = ?s ! b" by (auto intro: ga)
    show "getProgress (h (?g ! a)) \<le> getProgress (h (?g ! b))"
    proof (cases "a = m")
      case True
      show ?thesis
      proof (cases "b = m")
        case True
        with \<open>a = m\<close> show ?thesis by simp
      next
        case False
        with ab True have "?s ! b = gs ! b" by (intro so) auto
        moreover from below_tail ab lg False True
        have "getProgress (h (gs ! 0)) \<le> getProgress (h (gs ! b))" by auto
        ultimately show ?thesis using ga' gb' sm True by simp
      qed
    next
      case False
      with ab have "?s ! a = gs ! a" "?s ! b = gs ! b" by (auto intro: so)
      moreover from sorted_tail ab lg False
      have "getProgress (h (gs ! a)) \<le> getProgress (h (gs ! b))" by auto
      ultimately show ?thesis using ga' gb' by simp
    qed
  qed
  have q5: "\<forall>a b. a < m \<and> m \<le> b \<and> b < length ?g
           \<longrightarrow> getProgress (h (?g ! a)) \<le> getProgress (h (?g ! b))"
  proof (intro allI impI)
    fix a b assume ab: "a < m \<and> m \<le> b \<and> b < length ?g"
    then have gb': "?g ! b = ?s ! b" by (auto intro: ga)
    from heapify_below [OF ls, of a h 0] ab
    obtain a' where a': "a' < m" "?g ! a = ?s ! a'" by auto
    have "\<exists>a''<Suc m. ?s ! a' = gs ! a''"
    proof (cases "a' = 0")
      case True
      with s0 show ?thesis by auto
    next
      case False
      with a' have "?s ! a' = gs ! a'" by (intro so) auto
      moreover from a'(1) have "a' < Suc m" by simp
      ultimately show ?thesis by blast
    qed
    then obtain a'' where a'': "a'' < Suc m" "?s ! a' = gs ! a''" by auto
    have "getProgress (h (gs ! a'')) \<le> getProgress (h (?s ! b))"
    proof (cases "b = m")
      case True
      with sm root [OF a''(1)] show ?thesis by simp
    next
      case False
      with ab have "?s ! b = gs ! b" by (intro so) auto
      moreover from below_tail a''(1) ab lg False
      have "getProgress (h (gs ! a'')) \<le> getProgress (h (gs ! b))" by auto
      ultimately show ?thesis by simp
    qed
    with a' a'' gb' show "getProgress (h (?g ! a)) \<le> getProgress (h (?g ! b))" by simp
  qed
  from Suc.IH [OF q1 q2 q3 q4 q5] lg show ?case unfolding unfold by simp
qed

lemma heapSort_sorted_aux:
  assumes lb: "\<forall>p\<in>set goals. - 1 \<le> getProgress (h p)"
  shows "sorted (map (\<lambda>p. getProgress (h p)) (heapSort h goals))"
proof -
  let ?n = "length goals"
  let ?b = "heapSort_build h goals ?n (int (?n div 2) - 1)"
  have hs: "heapSort h goals = heapSort_extract h ?b (int ?n - 1)"
    by (simp add: heapSort_def Let_def zdiv_int)
  have mb: "mset ?b = mset goals" by (rule heapSort_build_mset) simp
  then have lenb: "length ?b = ?n" by (metis size_mset)
  from mb have setb: "set ?b = set goals" by (metis set_mset_mset)
  have heap: "\<forall>j. j < ?n \<longrightarrow> child_ok h ?b ?n j"
  proof (rule heapSort_build_heap [OF _ lb])
    show "?n \<le> length goals" by simp
    show "\<forall>j. ?n div 2 \<le> j \<and> j < ?n \<longrightarrow> child_ok h goals ?n j"
      unfolding child_ok_def by auto
  qed
  have "\<forall>a b. a \<le> b \<and> b < length ?b
           \<longrightarrow> getProgress (h (heapSort_extract h ?b (int ?n - 1) ! a))
                 \<le> getProgress (h (heapSort_extract h ?b (int ?n - 1) ! b))"
  proof (rule heapSort_extract_sorted)
    show "?n \<le> length ?b" using lenb by simp
    show "\<forall>j. j < ?n \<longrightarrow> child_ok h ?b ?n j" by (rule heap)
    show "\<forall>p\<in>set ?b. - 1 \<le> getProgress (h p)" using lb setb by simp
    show "\<forall>a b. ?n \<le> a \<and> a \<le> b \<and> b < length ?b
           \<longrightarrow> getProgress (h (?b ! a)) \<le> getProgress (h (?b ! b))"
      using lenb by auto
    show "\<forall>a b. a < ?n \<and> ?n \<le> b \<and> b < length ?b
           \<longrightarrow> getProgress (h (?b ! a)) \<le> getProgress (h (?b ! b))"
      using lenb by auto
  qed
  moreover have "length (heapSort h goals) = ?n"
    using heapSort_mset [of h goals] by (metis size_mset)
  ultimately show ?thesis
    unfolding hs [symmetric] lenb by (simp add: sorted_iff_nth_mono)
qed

text \<open>
  Claim C9. \<^verbatim>\<open>heapSort\<close> returns a permutation of its input: the multiset of goal
  pointers after sorting is the multiset before, whatever the progress values are.
\<close>

theorem heapSort_permutation: "mset (heapSort h goals) = mset goals"
  by (rule heapSort_mset)

text \<open>
  Claim C1, as stated: every goal whose progress is the sentinel -1 comes after every
  goal with another progress, and the other goals are strictly descending. On the
  ranking scenario the code returns the two non-quantifiable goals first and then the
  goals with progress 0.5 and 0.9, in this ascending order.
\<close>

theorem heapSort_descending_counterexample:
  "heapSort scenario_goals [0, 1, 2, 3] = [1, 3, 0, 2]
   \<and> getProgress (scenario_goals 1) = - 1
   \<and> getProgress (scenario_goals 3) = - 1
   \<and> getProgress (scenario_goals 0) = 1 / 2
   \<and> getProgress (scenario_goals 2) = 9 / 10"
  by (simp add: heapSort_def heapify.simps heapSort_build.simps heapSort_extract.simps
      swap_def scenario_goals_def Let_def)

text \<open>
  Claim C1, amended. When no goal has a progress below -1, \<^verbatim>\<open>heapSort\<close> returns the
  goals in ascending order of \<^verbatim>\<open>getProgress()\<close> (equal values may be neighbours):
  every goal whose progress is the sentinel -1 comes before every goal with another
  progress.
\<close>

theorem heapSort_ascending:
  assumes "\<forall>p\<in>set goals. - 1 \<le> getProgress (h p)"
  shows "sorted (map (\<lambda>p. getProgress (h p)) (heapSort h goals))
    \<and> (\<forall>i j. i < length (heapSort h goals) \<and> j < length (heapSort h goals)
          \<and> getProgress (h (heapSort h goals ! i)) = - 1
          \<and> getProgress (h (heapSort h goals ! j)) \<noteq> - 1
        \<longrightarrow> i < j)"
proof (intro conjI allI impI)
  let ?r = "heapSort h goals"
  show s: "sorted (map (\<lambda>p. getProgress (h p)) ?r)"
    using assms by (rule heapSort_sorted_aux)
  fix i j
  assume ij: "i < length ?r \<and> j < length ?r
          \<and> getProgress (h (?r ! i)) = - 1 \<and> getProgress (h (?r ! j)) \<noteq> - 1"
  have "set ?r = set goals"
    using heapSort_mset [of h goals] by (metis set_mset_mset)
  with ij assms have "- 1 \<le> getProgress (h (?r ! j))" by (metis nth_mem)
  with ij have lt: "getProgress (h (?r ! i)) < getProgress (h (?r ! j))" by simp
  show "i < j"
  proof (rule ccontr)
    assume "\<not> i < j"
    then have "j \<le> i" by simp
    moreover from s have "\<forall>a b. a \<le> b \<longrightarrow> b < length ?r
        \<longrightarrow> getProgress (h (?r ! a)) \<le> getProgress (h (?r ! b))"
      by (simp add: sorted_iff_nth_mono)
    ultimately have "getProgress (h (?r ! j)) \<le> getProgress (h (?r ! i))"
      using ij by blast
    with lt show False by simp
  qed
qed

theorem heapSort_ascending_witness:
  "- 1 \<le> getProgress (scenario_goals 0) \<and> - 1 \<le> getProgress (scenario_goals 1)
   \<and> - 1 \<le> getProgress (scenario_goals 2) \<and> - 1 \<le> getProgress (scenario_goals 3)
   \<and> sorted (map (\<lambda>p. getProgress (scenario_goals p)) (heapSort scenario_goals [0, 1, 2, 3]))"
proof -
  have b: "- 1 \<le> getProgress (scenario_goals 0)" "- 1 \<le> getProgress (scenario_goals 1)"
    "- 1 \<le> getProgress (scenario_goals 2)" "- 1 \<le> getProgress (scenario_goals 3)"
    by (simp_all add: scenario_goals_def)
  then have "\<forall>p\<in>set [0, 1, 2, 3]. - 1 \<le> getProgress (scenario_goals p)" by simp
  from heapSort_ascending [OF this] b show ?thesis by blast
qed

text \<open>
  The bound on the progress is needed: a non-quantifiable goal never moves up in the
  heap, also above a goal whose progress is below -1, and then the result is not
  ascending.
\<close>

lemma heapSort_below_sentinel:
  "heapSort below_sentinel_goals [0, 1] = [1, 0]
   \<and> getProgress (below_sentinel_goals 1) = - 1
   \<and> getProgress (below_sentinel_goals 0) = - 2"
  by (simp add: heapSort_def heapify.simps heapSort_build.simps heapSort_extract.simps
      swap_def below_sentinel_goals_def Let_def)

section \<open>Merge sort: order, permutation and stability\<close>

subsection \<open>Merging two sorted lists\<close>

lemma merged_Nil2 [simp]: "merged key xs [] = xs"
  by (cases xs) simp_all

lemma mset_merged: "mset (merged key xs ys) = mset xs + mset ys"
  by (induction key xs ys rule: merged.induct) simp_all

lemma set_merged: "set (merged key xs ys) = set xs \<union> set ys"
  using mset_merged [of key xs ys] by (metis set_mset_mset set_mset_union)

lemma sorted_merged:
  "sorted (map key xs) \<Longrightarrow> sorted (map key ys) \<Longrightarrow> sorted (map key (merged key xs ys))"
  by (induction key xs ys rule: merged.induct) (auto simp: set_merged)

lemma filter_merged:
  "sorted (map key xs) \<Longrightarrow>
   filter (\<lambda>x. key x = k) (merged key xs ys)
     = filter (\<lambda>x. key x = k) xs @ filter (\<lambda>x. key x = k) ys"
proof (induction key xs ys rule: merged.induct)
  case (1 key ys)
  show ?case by simp
next
  case (2 key x xs)
  show ?case by simp
next
  case (3 key x xs y ys)
  show ?case
  proof (cases "key x \<le> key y")
    case True
    with 3 show ?thesis by simp
  next
    case False
    then have lt: "key y < key x" by simp
    have none: "filter (\<lambda>x. key x = key y) (x # xs) = []"
    proof -
      have "\<forall>z\<in>set (x # xs). key x \<le> key z" using "3.prems" by auto
      with lt have "\<forall>z\<in>set (x # xs). key z \<noteq> key y" by auto
      then show ?thesis by (simp add: filter_empty_conv)
    qed
    have ih: "filter (\<lambda>x. key x = k) (merged key (x # xs) ys)
        = filter (\<lambda>x. key x = k) (x # xs) @ filter (\<lambda>x. key x = k) ys"
      using "3.IH"(2) [OF False "3.prems"] .
    show ?thesis
    proof (cases "key y = k")
      case True
      with none have "filter (\<lambda>x. key x = k) (x # xs) = []" by simp
      with ih False True show ?thesis by simp
    next
      case ne: False
      with ih False show ?thesis by simp
    qed
  qed
qed

lemma merged_sort_key:
  "merged key (sort_key key xs) (sort_key key ys) = sort_key key (xs @ ys)"
proof (rule properties_for_sort_key [symmetric])
  show "mset (merged key (sort_key key xs) (sort_key key ys)) = mset (xs @ ys)"
    by (simp add: mset_merged)
  show "sorted (map key (merged key (sort_key key xs) (sort_key key ys)))"
    by (simp add: sorted_merged)
  fix k
  have "filter (\<lambda>x. key x = key k) (merged key (sort_key key xs) (sort_key key ys))
        = filter (\<lambda>x. key x = key k) (xs @ ys)"
    by (simp add: filter_merged sort_key_stable)
  moreover have "(\<lambda>x. key k = key x) = (\<lambda>x. key x = key k)" by auto
  ultimately show "filter (\<lambda>x. key k = key x) (merged key (sort_key key xs) (sort_key key ys))
        = filter (\<lambda>x. key k = key x) (xs @ ys)"
    by simp
qed

lemma map_nth_upto:
  "a + n \<le> length xs \<Longrightarrow>
   map (\<lambda>i. xs ! nat (int a + i)) [0..int n - 1] = take n (drop a xs)"
proof (rule nth_equalityI)
  assume le: "a + n \<le> length xs"
  then show "length (map (\<lambda>i. xs ! nat (int a + i)) [0..int n - 1]) = length (take n (drop a xs))"
    by simp
  fix t assume "t < length (map (\<lambda>i. xs ! nat (int a + i)) [0..int n - 1])"
  then have t: "t < n" by simp
  then have "[0..int n - 1] ! t = 0 + int t" by (intro nth_upto) simp
  moreover have "nat (int a + int t) = a + t" by simp
  ultimately show "map (\<lambda>i. xs ! nat (int a + i)) [0..int n - 1] ! t = take n (drop a xs) ! t"
    using t le by (simp add: nat_add_distrib)
qed

subsection \<open>Sorting by priority\<close>

lemma merge_while2_correct:
  "length Y = length L - i \<Longrightarrow> i \<le> length L \<Longrightarrow>
   merge_while2 L (int (length L)) (A @ Y @ C) (int i) (int (length A))
     = (A @ drop i L @ C, int (length L), int (length A + (length L - i)))"
proof (induction "length L - i" arbitrary: A Y i)
  case 0
  then have "i = length L" "Y = []" by simp_all
  then show ?case by (subst merge_while2.simps) simp
next
  case (Suc d)
  from Suc.hyps(2) have i: "i < length L" by arith
  with Suc.prems obtain y Y' where Y: "Y = y # Y'" by (cases Y) auto
  have step: "merge_while2 L (int (length L)) (A @ Y @ C) (int i) (int (length A))
      = merge_while2 L (int (length L)) ((A @ [L ! i]) @ Y' @ C) (int (Suc i))
          (int (length (A @ [L ! i])))"
    using i by (subst merge_while2.simps) (simp add: Y add.commute)
  have "merge_while2 L (int (length L)) ((A @ [L ! i]) @ Y' @ C) (int (Suc i))
          (int (length (A @ [L ! i])))
      = ((A @ [L ! i]) @ drop (Suc i) L @ C, int (length L),
          int (length (A @ [L ! i]) + (length L - Suc i)))"
    using Suc.hyps(2) Suc.prems Y i by (intro Suc.hyps(1)) auto
  with step i show ?case by (simp add: Cons_nth_drop_Suc [symmetric])
qed

lemma merge_while3_correct:
  "length Y = length R - j \<Longrightarrow> j \<le> length R \<Longrightarrow>
   merge_while3 R (int (length R)) (A @ Y @ C) (int j) (int (length A))
     = (A @ drop j R @ C, int (length R), int (length A + (length R - j)))"
proof (induction "length R - j" arbitrary: A Y j)
  case 0
  then have "j = length R" "Y = []" by simp_all
  then show ?case by (subst merge_while3.simps) simp
next
  case (Suc d)
  from Suc.hyps(2) have j: "j < length R" by arith
  with Suc.prems obtain y Y' where Y: "Y = y # Y'" by (cases Y) auto
  have step: "merge_while3 R (int (length R)) (A @ Y @ C) (int j) (int (length A))
      = merge_while3 R (int (length R)) ((A @ [R ! j]) @ Y' @ C) (int (Suc j))
          (int (length (A @ [R ! j])))"
    using j by (subst merge_while3.simps) (simp add: Y add.commute)
  have "merge_while3 R (int (length R)) ((A @ [R ! j]) @ Y' @ C) (int (Suc j))
          (int (length (A @ [R ! j])))
      = ((A @ [R ! j]) @ drop (Suc j) R @ C, int (length R),
          int (length (A @ [R ! j]) + (length R - Suc j)))"
    using Suc.hyps(2) Suc.prems Y j by (intro Suc.hyps(1)) auto
  with step j show ?case by (simp add: Cons_nth_drop_Suc [symmetric])
qed

lemma merge_loops_correct:
  "length Y = (length L - i) + (length R - j) \<Longrightarrow> i \<le> length L \<Longrightarrow> j \<le> length R \<Longrightarrow>
   merge_loops h L R (A @ Y @ C) (int i) (int j) (int (length A))
     = A @ merged (\<lambda>p. priority (h p)) (drop i L) (drop j R) @ C"
proof (induction "(length L - i) + (length R - j)" arbitrary: A Y i j rule: less_induct)
  case less
  show ?case
  proof (cases "i < length L \<and> j < length R")
    case True
    then have i: "i < length L" and j: "j < length R" by simp_all
    with less.prems obtain y Y' where Y: "Y = y # Y'" by (cases Y) auto
    have dl: "drop i L = L ! i # drop (Suc i) L" using i by (simp add: Cons_nth_drop_Suc)
    have dr: "drop j R = R ! j # drop (Suc j) R" using j by (simp add: Cons_nth_drop_Suc)
    show ?thesis
    proof (cases "priority (h (L ! i)) \<le> priority (h (R ! j))")
      case le: True
      have step: "merge_loops h L R (A @ Y @ C) (int i) (int j) (int (length A))
          = merge_loops h L R ((A @ [L ! i]) @ Y' @ C) (int (Suc i)) (int j)
              (int (length (A @ [L ! i])))"
        unfolding merge_loops_def
        using i j le by (subst merge_while1.simps) (simp add: Y add.commute)
      have "merge_loops h L R ((A @ [L ! i]) @ Y' @ C) (int (Suc i)) (int j)
              (int (length (A @ [L ! i])))
          = (A @ [L ! i]) @ merged (\<lambda>p. priority (h p)) (drop (Suc i) L) (drop j R) @ C"
        using less.prems Y i j by (intro less.hyps) auto
      with step le show ?thesis by (simp add: dl dr)
    next
      case gt: False
      have step: "merge_loops h L R (A @ Y @ C) (int i) (int j) (int (length A))
          = merge_loops h L R ((A @ [R ! j]) @ Y' @ C) (int i) (int (Suc j))
              (int (length (A @ [R ! j])))"
        unfolding merge_loops_def
        using i j gt by (subst merge_while1.simps) (simp add: Y add.commute)
      have "merge_loops h L R ((A @ [R ! j]) @ Y' @ C) (int i) (int (Suc j))
              (int (length (A @ [R ! j])))
          = (A @ [R ! j]) @ merged (\<lambda>p. priority (h p)) (drop i L) (drop (Suc j) R) @ C"
        using less.prems Y i j by (intro less.hyps) auto
      with step gt show ?thesis by (simp add: dl dr)
    qed
  next
    case False
    then have nc: "\<not> (int i < int (length L) \<and> int j < int (length R))" by simp
    have stop: "merge_while1 h L R (int (length L)) (int (length R)) (A @ Y @ C)
        (int i) (int j) (int (length A)) = (A @ Y @ C, int i, int j, int (length A))"
      by (subst merge_while1.simps) (simp only: nc if_False)
    let ?Y1 = "take (length L - i) Y" and ?Y2 = "drop (length L - i) Y"
    have Y: "Y = ?Y1 @ ?Y2" by simp
    have l1: "length ?Y1 = length L - i" and l2: "length ?Y2 = length R - j"
      using less.prems by simp_all
    have w2: "merge_while2 L (int (length L)) (A @ ?Y1 @ (?Y2 @ C)) (int i) (int (length A))
        = (A @ drop i L @ (?Y2 @ C), int (length L), int (length A + (length L - i)))"
      using l1 less.prems(2) by (rule merge_while2_correct)
    have w3: "merge_while3 R (int (length R)) ((A @ drop i L) @ ?Y2 @ C) (int j)
          (int (length (A @ drop i L)))
        = ((A @ drop i L) @ drop j R @ C, int (length R),
            int (length (A @ drop i L) + (length R - j)))"
      using l2 less.prems(3) by (rule merge_while3_correct)
    have res: "merge_loops h L R (A @ Y @ C) (int i) (int j) (int (length A))
        = A @ drop i L @ drop j R @ C"
    proof -
      have "?Y1 @ (?Y2 @ C) = (?Y1 @ ?Y2) @ C" by (simp only: append_assoc)
      then have eq: "A @ ?Y1 @ (?Y2 @ C) = A @ Y @ C" by (simp only: append_take_drop_id)
      show ?thesis
        unfolding merge_loops_def stop using w2 [unfolded eq] w3 by simp
    qed
    from False less.prems have "drop i L = [] \<or> drop j R = []" by auto
    then have "merged (\<lambda>p. priority (h p)) (drop i L) (drop j R) = drop i L @ drop j R"
      by auto
    with res show ?thesis by simp
  qed
qed

lemma merge_correct:
  "merge h (A @ S1 @ S2 @ C) (int (length A)) (int (length A + length S1) - 1)
      (int (length A + length S1 + length S2) - 1)
     = A @ merged (\<lambda>p. priority (h p)) S1 S2 @ C"
proof -
  let ?t = "A @ S1 @ S2 @ C"
  have n1: "int (length A + length S1) - 1 - int (length A) + 1 = int (length S1)"
    and n2: "int (length A + length S1 + length S2) - 1 - (int (length A + length S1) - 1)
             = int (length S2)"
    by simp_all
  have L: "map (\<lambda>i. ?t ! nat (int (length A) + i)) [0..int (length S1) - 1] = S1"
    by (subst map_nth_upto) simp_all
  have "map (\<lambda>j. ?t ! nat (int (length A + length S1) + j)) [0..int (length S2) - 1] = S2"
    by (subst map_nth_upto) simp_all
  then have R: "map (\<lambda>j. ?t ! nat (int (length A + length S1) - 1 + 1 + j))
      [0..int (length S2) - 1] = S2"
    by simp
  have "merge h ?t (int (length A)) (int (length A + length S1) - 1)
      (int (length A + length S1 + length S2) - 1)
      = merge_loops h S1 S2 (A @ (S1 @ S2) @ C) (int 0) (int 0) (int (length A))"
    unfolding merge_def merge_loops_def Let_def n1 n2 L R by simp
  also have "\<dots> = A @ merged (\<lambda>p. priority (h p)) (drop 0 S1) (drop 0 S2) @ C"
    by (rule merge_loops_correct) simp_all
  finally show ?thesis by simp
qed

lemma mergeSort_correct:
  "B \<noteq> [] \<Longrightarrow>
   mergeSort h (A @ B @ C) (int (length A)) (int (length A + length B) - 1)
     = A @ sort_key (\<lambda>p. priority (h p)) B @ C"
proof (induction "length B" arbitrary: A B C rule: less_induct)
  case less
  let ?key = "\<lambda>p. priority (h p)"
  show ?case
  proof (cases "length B = 1")
    case True
    then obtain b where B: "B = [b]" by (cases B) auto
    show ?thesis by (subst mergeSort.simps) (simp add: B)
  next
    case False
    moreover from less.prems have "length B \<noteq> 0" by simp
    ultimately have len: "2 \<le> length B" by arith
    let ?n1 = "(length B - 1) div 2 + 1"
    let ?B1 = "take ?n1 B" and ?B2 = "drop ?n1 B"
    from len have n1: "?n1 < length B" "0 < ?n1" by arith+
    then have l1: "length ?B1 = ?n1" and l2: "length ?B2 = length B - ?n1" by simp_all
    from n1 l1 l2 have ne: "?B1 \<noteq> []" "?B2 \<noteq> []" by auto
    from n1 l1 l2 have sm: "length ?B1 < length B" "length ?B2 < length B" by arith+
    have B: "B = ?B1 @ ?B2" by simp
    have mid: "int (length A) + (int (length A + length B) - 1 - int (length A)) div 2
        = int (length A + length ?B1) - 1"
    proof -
      have "(int (length A + length B) - 1 - int (length A)) div 2 = int ((length B - 1) div 2)"
        using len by (simp add: zdiv_int of_nat_diff)
      then show ?thesis using l1 by simp
    qed
    have c1: "mergeSort h (A @ ?B1 @ (?B2 @ C)) (int (length A)) (int (length A + length ?B1) - 1)
        = A @ sort_key ?key ?B1 @ (?B2 @ C)"
      using sm(1) ne(1) by (rule less.hyps)
    have c2: "mergeSort h ((A @ sort_key ?key ?B1) @ ?B2 @ C)
          (int (length (A @ sort_key ?key ?B1)))
          (int (length (A @ sort_key ?key ?B1) + length ?B2) - 1)
        = (A @ sort_key ?key ?B1) @ sort_key ?key ?B2 @ C"
      using sm(2) ne(2) by (rule less.hyps)
    have c3: "merge h (A @ sort_key ?key ?B1 @ sort_key ?key ?B2 @ C) (int (length A))
          (int (length A + length (sort_key ?key ?B1)) - 1)
          (int (length A + length (sort_key ?key ?B1) + length (sort_key ?key ?B2)) - 1)
        = A @ merged ?key (sort_key ?key ?B1) (sort_key ?key ?B2) @ C"
      by (rule merge_correct)
    have whole: "A @ B @ C = A @ ?B1 @ (?B2 @ C)" by simp
    have right: "int (length A + length B) - 1
        = int (length (A @ sort_key ?key ?B1) + length ?B2) - 1"
      using n1 by simp
    have lr: "\<not> int (length A + length B) - 1 \<le> int (length A)" using len by simp
    have "mergeSort h (A @ B @ C) (int (length A)) (int (length A + length B) - 1)
        = merge h
            (mergeSort h
               (mergeSort h (A @ B @ C) (int (length A)) (int (length A + length ?B1) - 1))
               (int (length A + length ?B1) - 1 + 1) (int (length A + length B) - 1))
            (int (length A)) (int (length A + length ?B1) - 1) (int (length A + length B) - 1)"
      using lr by (subst mergeSort.simps) (simp only: Let_def mid if_False)
    also have "mergeSort h (A @ B @ C) (int (length A)) (int (length A + length ?B1) - 1)
        = (A @ sort_key ?key ?B1) @ ?B2 @ C"
      unfolding whole c1 by simp
    also have "int (length A + length ?B1) - 1 + 1 = int (length (A @ sort_key ?key ?B1))"
      by simp
    also have "mergeSort h ((A @ sort_key ?key ?B1) @ ?B2 @ C)
          (int (length (A @ sort_key ?key ?B1))) (int (length A + length B) - 1)
        = A @ sort_key ?key ?B1 @ sort_key ?key ?B2 @ C"
      unfolding right c2 by simp
    also have "merge h (A @ sort_key ?key ?B1 @ sort_key ?key ?B2 @ C) (int (length A))
          (int (length A + length ?B1) - 1) (int (length A + length B) - 1)
        = A @ merged ?key (sort_key ?key ?B1) (sort_key ?key ?B2) @ C"
      using c3 n1 by simp
    also have "merged ?key (sort_key ?key ?B1) (sort_key ?key ?B2) = sort_key ?key (?B1 @ ?B2)"
      by (rule merged_sort_key)
    finally show ?thesis by simp
  qed
qed

lemma sortTasksByPriority_sort_key:
  "sortTasksByPriority h tasks = sort_key (\<lambda>p. priority (h p)) tasks"
proof (cases "tasks = []")
  case True
  then show ?thesis
    unfolding sortTasksByPriority_def by (subst mergeSort.simps) simp
next
  case False
  from mergeSort_correct [OF False, of h "[]" "[]"] show ?thesis
    by (simp add: sortTasksByPriority_def)
qed

text \<open>
  Claim C2. Sorting by priority with \<^verbatim>\<open>mergeSort\<close> yields a sequence that is
  ascending in the priority, is a permutation of the input, and keeps the tasks of
  equal priority in their original relative order: for every priority, the tasks of
  this priority are the same subsequence before and after.
\<close>

theorem sortTasksByPriority_stable_sort:
  "sorted (map (\<lambda>p. priority (h p)) (sortTasksByPriority h tasks))
   \<and> mset (sortTasksByPriority h tasks) = mset tasks
   \<and> (\<forall>k. filter (\<lambda>p. priority (h p) = k) (sortTasksByPriority h tasks)
          = filter (\<lambda>p. priority (h p) = k) tasks)"
proof (intro conjI allI)
  have eq: "sortTasksByPriority h tasks = sort_key (\<lambda>p. priority (h p)) tasks"
    by (rule sortTasksByPriority_sort_key)
  show "sorted (map (\<lambda>p. priority (h p)) (sortTasksByPriority h tasks))"
    unfolding eq by (rule sorted_sort_key)
  show "mset (sortTasksByPriority h tasks) = mset tasks"
    unfolding eq by (rule mset_sort)
  fix k
  show "filter (\<lambda>p. priority (h p) = k) (sortTasksByPriority h tasks)
      = filter (\<lambda>p. priority (h p) = k) tasks"
    unfolding eq by (rule sort_key_stable)
qed

lemma sortTasksByPriority_scenario:
  "sortTasksByPriority scenario_tasks [0, 1, 2, 3, 4] = [1, 2, 3, 4, 0]"
  by (simp add: sortTasksByPriority_def mergeSort.simps merge_def merge_while1.simps
      merge_while2.simps merge_while3.simps scenario_tasks_def Let_def upto.simps)

subsection \<open>Sorting by deadline\<close>

lemma mergeByDeadline_while2_correct:
  "length Y = length L - i \<Longrightarrow> i \<le> length L \<Longrightarrow>
   mergeByDeadline_while2 L (int (length L)) (A @ Y @ C) (int i) (int (length A))
     = (A @ drop i L @ C, int (length L), int (length A + (length L - i)))"
proof (induction "length L - i" arbitrary: A Y i)
  case 0
  then have "i = length L" "Y = []" by simp_all
  then show ?case by (subst mergeByDeadline_while2.simps) simp
next
  case (Suc d)
  from Suc.hyps(2) have i: "i < length L" by arith
  with Suc.prems obtain y Y' where Y: "Y = y # Y'" by (cases Y) auto
  have step: "mergeByDeadline_while2 L (int (length L)) (A @ Y @ C) (int i) (int (length A))
      = mergeByDeadline_while2 L (int (length L)) ((A @ [L ! i]) @ Y' @ C) (int (Suc i))
          (int (length (A @ [L ! i])))"
    using i by (subst mergeByDeadline_while2.simps) (simp add: Y add.commute)
  have "mergeByDeadline_while2 L (int (length L)) ((A @ [L ! i]) @ Y' @ C) (int (Suc i))
          (int (length (A @ [L ! i])))
      = ((A @ [L ! i]) @ drop (Suc i) L @ C, int (length L),
          int (length (A @ [L ! i]) + (length L - Suc i)))"
    using Suc.hyps(2) Suc.prems Y i by (intro Suc.hyps(1)) auto
  with step i show ?case by (simp add: Cons_nth_drop_Suc [symmetric])
qed

lemma mergeByDeadline_while3_correct:
  "length Y = length R - j \<Longrightarrow> j \<le> length R \<Longrightarrow>
   mergeByDeadline_while3 R (int (length R)) (A @ Y @ C) (int j) (int (length A))
     = (A @ drop j R @ C, int (length R), int (length A + (length R - j)))"
proof (induction "length R - j" arbitrary: A Y j)
  case 0
  then have "j = length R" "Y = []" by simp_all
  then show ?case by (subst mergeByDeadline_while3.simps) simp
next
  case (Suc d)
  from Suc.hyps(2) have j: "j < length R" by arith
  with Suc.prems obtain y Y' where Y: "Y = y # Y'" by (cases Y) auto
  have step: "mergeByDeadline_while3 R (int (length R)) (A @ Y @ C) (int j) (int (length A))
      = mergeByDeadline_while3 R (int (length R)) ((A @ [R ! j]) @ Y' @ C) (int (Suc j))
          (int (length (A @ [R ! j])))"
    using j by (subst mergeByDeadline_while3.simps) (simp add: Y add.commute)
  have "mergeByDeadline_while3 R (int (length R)) ((A @ [R ! j]) @ Y' @ C) (int (Suc j))
          (int (length (A @ [R ! j])))
      = ((A @ [R ! j]) @ drop (Suc j) R @ C, int (length R),
          int (length (A @ [R ! j]) + (length R - Suc j)))"
    using Suc.hyps(2) Suc.prems Y j by (intro Suc.hyps(1)) auto
  with step j show ?case by (simp add: Cons_nth_drop_Suc [symmetric])
qed

lemma mergeByDeadline_loops_correct:
  "length Y = (length L - i) + (length R - j) \<Longrightarrow> i \<le> length L \<Longrightarrow> j \<le> length R \<Longrightarrow>
   mergeByDeadline_loops h L R (A @ Y @ C) (int i) (int j) (int (length A))
     = A @ merged (\<lambda>p. deadline (h p)) (drop i L) (drop j R) @ C"
proof (induction "(length L - i) + (length R - j)" arbitrary: A Y i j rule: less_induct)
  case less
  show ?case
  proof (cases "i < length L \<and> j < length R")
    case True
    then have i: "i < length L" and j: "j < length R" by simp_all
    with less.prems obtain y Y' where Y: "Y = y # Y'" by (cases Y) auto
    have dl: "drop i L = L ! i # drop (Suc i) L" using i by (simp add: Cons_nth_drop_Suc)
    have dr: "drop j R = R ! j # drop (Suc j) R" using j by (simp add: Cons_nth_drop_Suc)
    show ?thesis
    proof (cases "deadline (h (L ! i)) \<le> deadline (h (R ! j))")
      case le: True
      have step: "mergeByDeadline_loops h L R (A @ Y @ C) (int i) (int j) (int (length A))
          = mergeByDeadline_loops h L R ((A @ [L ! i]) @ Y' @ C) (int (Suc i)) (int j)
              (int (length (A @ [L ! i])))"
        unfolding mergeByDeadline_loops_def
        using i j le by (subst mergeByDeadline_while1.simps) (simp add: Y add.commute)
      have "mergeByDeadline_loops h L R ((A @ [L ! i]) @ Y' @ C) (int (Suc i)) (int j)
              (int (length (A @ [L ! i])))
          = (A @ [L ! i]) @ merged (\<lambda>p. deadline (h p)) (drop (Suc i) L) (drop j R) @ C"
        using less.prems Y i j by (intro less.hyps) auto
      with step le show ?thesis by (simp add: dl dr)
    next
      case gt: False
      have step: "mergeByDeadline_loops h L R (A @ Y @ C) (int i) (int j) (int (length A))
          = mergeByDeadline_loops h L R ((A @ [R ! j]) @ Y' @ C) (int i) (int (Suc j))
              (int (length (A @ [R ! j])))"
        unfolding mergeByDeadline_loops_def
        using i j gt by (subst mergeByDeadline_while1.simps) (simp add: Y add.commute)
      have "mergeByDeadline_loops h L R ((A @ [R ! j]) @ Y' @ C) (int i) (int (Suc j))
              (int (length (A @ [R ! j])))
          = (A @ [R ! j]) @ merged (\<lambda>p. deadline (h p)) (drop i L) (drop (Suc j) R) @ C"
        using less.prems Y i j by (intro less.hyps) auto
      with step gt show ?thesis by (simp add: dl dr)
    qed
  next
    case False
    then have nc: "\<not> (int i < int (length L) \<and> int j < int (length R))" by simp
    have stop: "mergeByDeadline_while1 h L R (int (length L)) (int (length R)) (A @ Y @ C)
        (int i) (int j) (int (length A)) = (A @ Y @ C, int i, int j, int (length A))"
      by (subst mergeByDeadline_while1.simps) (simp only: nc if_False)
    let ?Y1 = "take (length L - i) Y" and ?Y2 = "drop (length L - i) Y"
    have Y: "Y = ?Y1 @ ?Y2" by simp
    have l1: "length ?Y1 = length L - i" and l2: "length ?Y2 = length R - j"
      using less.prems by simp_all
    have w2: "mergeByDeadline_while2 L (int (length L)) (A @ ?Y1 @ (?Y2 @ C)) (int i) (int (length A))
        = (A @ drop i L @ (?Y2 @ C), int (length L), int (length A + (length L - i)))"
      using l1 less.prems(2) by (rule mergeByDeadline_while2_correct)
    have w3: "mergeByDeadline_while3 R (int (length R)) ((A @ drop i L) @ ?Y2 @ C) (int j)
          (int (length (A @ drop i L)))
        = ((A @ drop i L) @ drop j R @ C, int (length R),
            int (length (A @ drop i L) + (length R - j)))"
      using l2 less.prems(3) by (rule mergeByDeadline_while3_correct)
    have res: "mergeByDeadline_loops h L R (A @ Y @ C) (int i) (int j) (int (length A))
        = A @ drop i L @ drop j R @ C"
    proof -
      have "?Y1 @ (?Y2 @ C) = (?Y1 @ ?Y2) @ C" by (simp only: append_assoc)
      then have eq: "A @ ?Y1 @ (?Y2 @ C) = A @ Y @ C" by (simp only: append_take_drop_id)
      show ?thesis
        unfolding mergeByDeadline_loops_def stop using w2 [unfolded eq] w3 by simp
    qed
    from False less.prems have "drop i L = [] \<or> drop j R = []" by auto
    then have "merged (\<lambda>p. deadline (h p)) (drop i L) (drop j R) = drop i L @ drop j R"
      by auto
    with res show ?thesis by simp
  qed
qed

lemma mergeByDeadline_correct:
  "mergeByDeadline h (A @ S1 @ S2 @ C) (int (length A)) (int (length A + length S1) - 1)
      (int (length A + length S1 + length S2) - 1)
     = A @ merged (\<lambda>p. deadline (h p)) S1 S2 @ C"
proof -
  let ?t = "A @ S1 @ S2 @ C"
  have n1: "int (length A + length S1) - 1 - int (length A) + 1 = int (length S1)"
    and n2: "int (length A + length S1 + length S2) - 1 - (int (length A + length S1) - 1)
             = int (length S2)"
    by simp_all
  have L: "map (\<lambda>i. ?t ! nat (int (length A) + i)) [0..int (length S1) - 1] = S1"
    by (subst map_nth_upto) simp_all
  have "map (\<lambda>j. ?t ! nat (int (length A + length S1) + j)) [0..int (length S2) - 1] = S2"
    by (subst map_nth_upto) simp_all
  then have R: "map (\<lambda>j. ?t ! nat (int (length A + length S1) - 1 + 1 + j))
      [0..int (length S2) - 1] = S2"
    by simp
  have "mergeByDeadline h ?t (int (length A)) (int (length A + length S1) - 1)
      (int (length A + length S1 + length S2) - 1)
      = mergeByDeadline_loops h S1 S2 (A @ (S1 @ S2) @ C) (int 0) (int 0) (int (length A))"
    unfolding mergeByDeadline_def mergeByDeadline_loops_def Let_def n1 n2 L R by simp
  also have "\<dots> = A @ merged (\<lambda>p. deadline (h p)) (drop 0 S1) (drop 0 S2) @ C"
    by (rule mergeByDeadline_loops_correct) simp_all
  finally show ?thesis by simp
qed

lemma mergeSortByDeadline_correct:
  "B \<noteq> [] \<Longrightarrow>
   mergeSortByDeadline h (A @ B @ C) (int (length A)) (int (length A + length B) - 1)
     = A @ sort_key (\<lambda>p. deadline (h p)) B @ C"
proof (induction "length B" arbitrary: A B C rule: less_induct)
  case less
  let ?key = "\<lambda>p. deadline (h p)"
  show ?case
  proof (cases "length B = 1")
    case True
    then obtain b where B: "B = [b]" by (cases B) auto
    show ?thesis by (subst mergeSortByDeadline.simps) (simp add: B)
  next
    case False
    moreover from less.prems have "length B \<noteq> 0" by simp
    ultimately have len: "2 \<le> length B" by arith
    let ?n1 = "(length B - 1) div 2 + 1"
    let ?B1 = "take ?n1 B" and ?B2 = "drop ?n1 B"
    from len have n1: "?n1 < length B" "0 < ?n1" by arith+
    then have l1: "length ?B1 = ?n1" and l2: "length ?B2 = length B - ?n1" by simp_all
    from n1 l1 l2 have ne: "?B1 \<noteq> []" "?B2 \<noteq> []" by auto
    from n1 l1 l2 have sm: "length ?B1 < length B" "length ?B2 < length B" by arith+
    have B: "B = ?B1 @ ?B2" by simp
    have mid: "int (length A) + (int (length A + length B) - 1 - int (length A)) div 2
        = int (length A + length ?B1) - 1"
    proof -
      have "(int (length A + length B) - 1 - int (length A)) div 2 = int ((length B - 1) div 2)"
        using len by (simp add: zdiv_int of_nat_diff)
      then show ?thesis using l1 by simp
    qed
    have c1: "mergeSortByDeadline h (A @ ?B1 @ (?B2 @ C)) (int (length A)) (int (length A + length ?B1) - 1)
        = A @ sort_key ?key ?B1 @ (?B2 @ C)"
      using sm(1) ne(1) by (rule less.hyps)
    have c2: "mergeSortByDeadline h ((A @ sort_key ?key ?B1) @ ?B2 @ C)
          (int (length (A @ sort_key ?key ?B1)))
          (int (length (A @ sort_key ?key ?B1) + length ?B2) - 1)
        = (A @ sort_key ?key ?B1) @ sort_key ?key ?B2 @ C"
      using sm(2) ne(2) by (rule less.hyps)
    have c3: "mergeByDeadline h (A @ sort_key ?key ?B1 @ sort_key ?key ?B2 @ C) (int (length A))
          (int (length A + length (sort_key ?key ?B1)) - 1)
          (int (length A + length (sort_key ?key ?B1) + length (sort_key ?key ?B2)) - 1)
        = A @ merged ?key (sort_key ?key ?B1) (sort_key ?key ?B2) @ C"
      by (rule mergeByDeadline_correct)
    have whole: "A @ B @ C = A @ ?B1 @ (?B2 @ C)" by simp
    have right: "int (length A + length B) - 1
        = int (length (A @ sort_key ?key ?B1) + length ?B2) - 1"
      using n1 by simp
    have lr: "\<not> int (length A + length B) - 1 \<le> int (length A)" using len by simp
    have "mergeSortByDeadline h (A @ B @ C) (int (length A)) (int (length A + length B) - 1)
        = mergeByDeadline h
            (mergeSortByDeadline h
               (mergeSortByDeadline h (A @ B @ C) (int (length A)) (int (length A + length ?B1) - 1))
               (int (length A + length ?B1) - 1 + 1) (int (length A + length B) - 1))
            (int (length A)) (int (length A + length ?B1) - 1) (int (length A + length B) - 1)"
      using lr by (subst mergeSortByDeadline.simps) (simp only: Let_def mid if_False)
    also have "mergeSortByDeadline h (A @ B @ C) (int (length A)) (int (length A + length ?B1) - 1)
        = (A @ sort_key ?key ?B1) @ ?B2 @ C"
      unfolding whole c1 by simp
    also have "int (length A + length ?B1) - 1 + 1 = int (length (A @ sort_key ?key ?B1))"
      by simp
    also have "mergeSortByDeadline h ((A @ sort_key ?key ?B1) @ ?B2 @ C)
          (int (length (A @ sort_key ?key ?B1))) (int (length A + length B) - 1)
        = A @ sort_key ?key ?B1 @ sort_key ?key ?B2 @ C"
      unfolding right c2 by simp
    also have "mergeByDeadline h (A @ sort_key ?key ?B1 @ sort_key ?key ?B2 @ C) (int (length A))
          (int (length A + length ?B1) - 1) (int (length A + length B) - 1)
        = A @ merged ?key (sort_key ?key ?B1) (sort_key ?key ?B2) @ C"
      using c3 n1 by simp
    also have "merged ?key (sort_key ?key ?B1) (sort_key ?key ?B2) = sort_key ?key (?B1 @ ?B2)"
      by (rule merged_sort_key)
    finally show ?thesis by simp
  qed
qed

lemma sortTasksByDeadline_sort_key:
  "sortTasksByDeadline h tasks = sort_key (\<lambda>p. deadline (h p)) tasks"
proof (cases "tasks = []")
  case True
  then show ?thesis
    unfolding sortTasksByDeadline_def by (subst mergeSortByDeadline.simps) simp
next
  case False
  from mergeSortByDeadline_correct [OF False, of h "[]" "[]"] show ?thesis
    by (simp add: sortTasksByDeadline_def)
qed

text \<open>
  Claim C4. Sorting by deadline with \<^verbatim>\<open>mergeSortByDeadline\<close> yields a sequence that
  is ascending in the lexicographic order of the raw deadline strings, is a permutation
  of the input, and keeps the tasks of equal deadline string in their original relative
  order.
\<close>

theorem sortTasksByDeadline_stable_sort:
  "sorted (map (\<lambda>p. deadline (h p)) (sortTasksByDeadline h tasks))
   \<and> mset (sortTasksByDeadline h tasks) = mset tasks
   \<and> (\<forall>k. filter (\<lambda>p. deadline (h p) = k) (sortTasksByDeadline h tasks)
          = filter (\<lambda>p. deadline (h p) = k) tasks)"
proof (intro conjI allI)
  have eq: "sortTasksByDeadline h tasks = sort_key (\<lambda>p. deadline (h p)) tasks"
    by (rule sortTasksByDeadline_sort_key)
  show "sorted (map (\<lambda>p. deadline (h p)) (sortTasksByDeadline h tasks))"
    unfolding eq by (rule sorted_sort_key)
  show "mset (sortTasksByDeadline h tasks) = mset tasks"
    unfolding eq by (rule mset_sort)
  fix k
  show "filter (\<lambda>p. deadline (h p) = k) (sortTasksByDeadline h tasks)
      = filter (\<lambda>p. deadline (h p) = k) tasks"
    unfolding eq by (rule sort_key_stable)
qed

lemma sortTasksByDeadline_scenario:
  "sortTasksByDeadline scenario_tasks [0, 1, 2, 3, 4] = [1, 2, 3, 0, 4]"
  by (simp add: sortTasksByDeadline_def mergeSortByDeadline.simps mergeByDeadline_def
      mergeByDeadline_while1.simps mergeByDeadline_while2.simps mergeByDeadline_while3.simps
      scenario_tasks_def Let_def upto.simps)

section \<open>Knuth-Morris-Pratt: the search ends and finds the substrings\<close>

subsection \<open>Matches of a prefix\<close>

lemma pmatch_0 [simp]: "pmatch s p i 0"
  by (simp add: pmatch_def)

lemma pmatch_border:
  assumes "pmatch s p i j" and "border p j k"
  shows "pmatch s p i k"
  unfolding pmatch_def
proof (intro conjI allI impI)
  from assms show "k \<le> i" by (simp add: pmatch_def border_def)
  fix t assume t: "t < k"
  from assms have kj: "k < j" and ji: "j \<le> i" by (simp_all add: pmatch_def border_def)
  from assms(2) t have "p ! t = p ! (j - k + t)" by (simp add: pmatch_def border_def)
  also from assms(1) t kj have "\<dots> = s ! (i - j + (j - k + t))" by (simp add: pmatch_def)
  also from kj ji have "i - j + (j - k + t) = i - k + t" by arith
  finally show "p ! t = s ! (i - k + t)" .
qed

lemma pmatch_shorter:
  assumes "pmatch s p i j" and "pmatch s p i k" and "k < j"
  shows "border p j k"
  unfolding border_def pmatch_def
proof (intro conjI allI impI)
  show "k < j" by fact
  then show "k \<le> j" by simp
  fix t assume t: "t < k"
  from assms(1) have ji: "j \<le> i" by (simp add: pmatch_def)
  from assms(2) t have "p ! t = s ! (i - k + t)" by (simp add: pmatch_def)
  also from \<open>k < j\<close> ji have "i - k + t = i - j + (j - k + t)" by arith
  also from assms(1) t \<open>k < j\<close> have "s ! (i - j + (j - k + t)) = p ! (j - k + t)"
    by (simp add: pmatch_def)
  finally show "p ! t = p ! (j - k + t)" .
qed

lemma pmatch_Suc:
  "pmatch s p (i + 1) (j + 1) \<longleftrightarrow> pmatch s p i j \<and> p ! j = s ! i"
proof
  assume a: "pmatch s p (i + 1) (j + 1)"
  then have ji: "j \<le> i" by (simp add: pmatch_def)
  have "p ! t = s ! (i - j + t)" if "t < j" for t
    using a that by (simp add: pmatch_def)
  moreover from a have "p ! j = s ! (i + 1 - (j + 1) + j)"
    unfolding pmatch_def by (metis less_add_one)
  with ji have "p ! j = s ! i" by simp
  ultimately show "pmatch s p i j \<and> p ! j = s ! i"
    using ji by (simp add: pmatch_def)
next
  assume a: "pmatch s p i j \<and> p ! j = s ! i"
  then have ji: "j \<le> i" by (simp add: pmatch_def)
  show "pmatch s p (i + 1) (j + 1)"
    unfolding pmatch_def
  proof (intro conjI allI impI)
    from ji show "j + 1 \<le> i + 1" by simp
    fix t assume "t < j + 1"
    then consider "t < j" | "t = j" by arith
    then show "p ! t = s ! (i + 1 - (j + 1) + t)"
    proof cases
      case 1
      with a show ?thesis by (simp add: pmatch_def)
    next
      case 2
      with a ji show ?thesis by simp
    qed
  qed
qed

lemma border_Suc:
  "border p (i + 1) (k + 1) \<longleftrightarrow> border p i k \<and> p ! k = p ! i"
  using pmatch_Suc [of p p i k] by (simp add: border_def)

lemma border_0 [simp]: "border p (Suc i) 0"
  by (simp add: border_def)

lemma border_0_add: "border p (i + 1) 0"
  by simp

subsection \<open>The table\<close>

lemma lps_ok_extend:
  assumes ok: "lps_ok p lps i" and i: "i < length lps"
    and b: "border p (i + 1) v" and mx: "\<forall>k. border p (i + 1) k \<longrightarrow> k \<le> v"
  shows "lps_ok p (lps[i := v]) (i + 1)"
  unfolding lps_ok_def
proof (intro allI impI)
  fix r assume "r < i + 1"
  then consider "r < i" | "r = i" by arith
  then show "border p (r + 1) (lps[i := v] ! r)
      \<and> (\<forall>k. border p (r + 1) k \<longrightarrow> k \<le> lps[i := v] ! r)"
  proof cases
    case 1
    then have "lps[i := v] ! r = lps ! r" by simp
    with ok 1 show ?thesis by (simp add: lps_ok_def)
  next
    case 2
    then have "lps[i := v] ! r = v" using i by simp
    with b mx 2 show ?thesis by simp
  qed
qed

lemma border_max_Suc:
  assumes "\<forall>k. border p i k \<and> p ! k = p ! i \<longrightarrow> k \<le> len"
  shows "\<forall>k. border p (i + 1) k \<longrightarrow> k \<le> len + 1"
proof (intro allI impI)
  fix k assume b: "border p (i + 1) k"
  show "k \<le> len + 1"
  proof (cases k)
    case 0
    then show ?thesis by simp
  next
    case (Suc k')
    with b have "border p (i + 1) (k' + 1)" by simp
    then have "border p i k' \<and> p ! k' = p ! i" by (simp only: border_Suc)
    with assms have "k' \<le> len" by blast
    with Suc show ?thesis by simp
  qed
qed

lemma computeKMPTable_while_correct:
  "table_inv p lps len i \<Longrightarrow>
   \<exists>lps'. computeKMPTable_while p (length p) lps len i = Some lps'
     \<and> length lps' = length p \<and> lps_ok p lps' (length p)"
proof (induction "2 * (length p - i) + len" arbitrary: lps len i rule: less_induct)
  case less
  note inv = less.prems
  from inv have ll: "length lps = length p" and i1: "1 \<le> i" and im: "i \<le> length p"
    and ok: "lps_ok p lps i" and bl: "border p i len"
    and mx: "\<forall>k. border p i k \<and> p ! k = p ! i \<longrightarrow> k \<le> len"
    by (simp_all add: table_inv_def)
  from bl have li: "len < i" by (simp add: border_def)
  show ?case
  proof (cases "i < length p")
    case False
    with im have "i = length p" by simp
    with ok ll show ?thesis
      by (subst computeKMPTable_while.simps) simp
  next
    case True
    with ll have il: "i < length lps" by simp
    show ?thesis
    proof (cases "p ! i = p ! len")
      case eq: True
      have step: "computeKMPTable_while p (length p) lps len i
          = computeKMPTable_while p (length p) (lps[i := len + 1]) (len + 1) (i + 1)"
        using True eq by (subst computeKMPTable_while.simps) simp
      have b': "border p (i + 1) (len + 1)"
      proof -
        from bl eq have "border p i len \<and> p ! len = p ! i" by simp
        then show ?thesis by (simp only: border_Suc)
      qed
      have mx': "\<forall>k. border p (i + 1) k \<longrightarrow> k \<le> len + 1"
        using mx by (rule border_max_Suc)
      have ok': "lps_ok p (lps[i := len + 1]) (i + 1)"
        using ok il b' mx' by (rule lps_ok_extend)
      have "table_inv p (lps[i := len + 1]) (len + 1) (i + 1)"
        unfolding table_inv_def using ll True ok' b' mx' by auto
      moreover have "2 * (length p - (i + 1)) + (len + 1) < 2 * (length p - i) + len"
        using True by arith
      ultimately show ?thesis unfolding step by (intro less.hyps)
    next
      case ne: False
      show ?thesis
      proof (cases "len = 0")
        case False
        let ?len' = "lps ! (len - 1)"
        have step: "computeKMPTable_while p (length p) lps len i
            = computeKMPTable_while p (length p) lps ?len' i"
          using True ne False by (subst computeKMPTable_while.simps) simp
        from False li have "len - 1 < i" and l1: "len - 1 + 1 = len" by arith+
        with ok have bb: "border p len ?len'"
          and bm: "\<forall>k. border p len k \<longrightarrow> k \<le> ?len'"
          unfolding lps_ok_def by (metis l1)+
        from bb have lt: "?len' < len" by (simp add: border_def)
        have b': "border p i ?len'"
        proof -
          from bl have "pmatch p p i len" by (simp add: border_def)
          then have "pmatch p p i ?len'" using bb by (rule pmatch_border)
          with lt li show ?thesis by (simp add: border_def)
        qed
        have mx': "\<forall>k. border p i k \<and> p ! k = p ! i \<longrightarrow> k \<le> ?len'"
        proof (intro allI impI)
          fix k assume k: "border p i k \<and> p ! k = p ! i"
          with mx have "k \<le> len" by blast
          moreover from k ne have "k \<noteq> len" by auto
          ultimately have kl: "k < len" by simp
          from bl k have "pmatch p p i len" "pmatch p p i k" by (simp_all add: border_def)
          then have "border p len k" using kl by (rule pmatch_shorter)
          with bm show "k \<le> ?len'" by blast
        qed
        have "table_inv p lps ?len' i"
          unfolding table_inv_def using ll i1 im ok b' mx' by auto
        moreover have "2 * (length p - i) + ?len' < 2 * (length p - i) + len"
          using lt by simp
        ultimately show ?thesis unfolding step by (intro less.hyps)
      next
        case z: True
        have step: "computeKMPTable_while p (length p) lps len i
            = computeKMPTable_while p (length p) (lps[i := 0]) len (i + 1)"
          using True ne z by (subst computeKMPTable_while.simps) simp
        have mx0: "\<forall>k. border p (i + 1) k \<longrightarrow> k \<le> 0"
        proof (intro allI impI)
          fix k assume b: "border p (i + 1) k"
          show "k \<le> 0"
          proof (cases k)
            case 0
            then show ?thesis by simp
          next
            case (Suc k')
            with b have "border p (i + 1) (k' + 1)" by simp
            then have k': "border p i k' \<and> p ! k' = p ! i" by (simp only: border_Suc)
            with mx z have "k' = 0" by auto
            with k' ne z show ?thesis by simp
          qed
        qed
        have ok': "lps_ok p (lps[i := 0]) (i + 1)"
          using ok il border_0_add mx0 by (rule lps_ok_extend)
        have "\<forall>k. border p (i + 1) k \<and> p ! k = p ! (i + 1) \<longrightarrow> k \<le> len"
          using mx0 z by auto
        then have "table_inv p (lps[i := 0]) len (i + 1)"
          unfolding table_inv_def using ll True ok' z by auto
        moreover have "2 * (length p - (i + 1)) + len < 2 * (length p - i) + len"
          using True by arith
        ultimately show ?thesis unfolding step by (intro less.hyps)
      qed
    qed
  qed
qed

lemma computeKMPTable_correct:
  assumes "pattern \<noteq> []"
  shows "\<exists>lps. computeKMPTable pattern = Some lps
     \<and> length lps = length pattern \<and> lps_ok pattern lps (length pattern)"
proof -
  let ?m = "length pattern"
  from assms have m: "1 \<le> ?m" by (cases pattern) simp_all
  from m have "0 < ?m" by arith
  then have "replicate ?m 0 ! 0 = (0::nat)" by simp
  then have "lps_ok pattern (replicate ?m 0) 1"
    unfolding lps_ok_def by (auto simp: border_def)
  moreover have "border pattern 1 0" by (simp add: border_def)
  moreover have "\<forall>k. border pattern 1 k \<and> pattern ! k = pattern ! 1 \<longrightarrow> k \<le> 0"
    by (auto simp: border_def)
  ultimately have "table_inv pattern (replicate ?m 0) 0 1"
    unfolding table_inv_def using m by simp
  from computeKMPTable_while_correct [OF this] show ?thesis
    by (simp add: computeKMPTable_def Let_def)
qed

subsection \<open>The search\<close>

lemma occurs_at_pmatch:
  assumes "occurs_at s p a" and "a \<le> i" and "i - a \<le> length p"
  shows "pmatch s p i (i - a)"
  unfolding pmatch_def
proof (intro conjI allI impI)
  show "i - a \<le> i" by simp
  fix t assume t: "t < i - a"
  with assms(3) have "t < length p" by simp
  with assms(1) have "s ! (a + t) = p ! t" by (simp add: occurs_at_def)
  moreover from assms(2) have "i - (i - a) + t = a + t" by simp
  ultimately show "p ! t = s ! (i - (i - a) + t)" by simp
qed

lemma pmatch_full_occurs:
  assumes "pmatch s p i (length p)" and "i \<le> length s"
  shows "occurs_at s p (i - length p)"
  unfolding occurs_at_def
proof (intro conjI allI impI)
  from assms show "i - length p + length p \<le> length s" by (simp add: pmatch_def)
  fix t assume "t < length p"
  with assms(1) show "s ! (i - length p + t) = p ! t" by (simp add: pmatch_def)
qed

lemma KMPSearch_while_correct:
  assumes tab: "lps_ok p lps (length p)"
  shows "search_inv s p i j \<Longrightarrow>
    KMPSearch_while s p (length s) (length p) lps i j = Some (\<exists>a. occurs_at s p a)"
proof (induction "2 * (length s - i) + j" arbitrary: i j rule: less_induct)
  case less
  from less.prems have jm: "j < length p" and ins: "i \<le> length s" and pm: "pmatch s p i j"
    and no: "\<forall>a. a + j < i \<longrightarrow> \<not> occurs_at s p a"
    by (simp_all add: search_inv_def)
  from pm have ji: "j \<le> i" by (simp add: pmatch_def)
  show ?case
  proof (cases "i < length s")
    case False
    with ins have iend: "i = length s" by simp
    have "\<not> occurs_at s p a" for a
    proof
      assume oc: "occurs_at s p a"
      then have "a + length p \<le> length s" by (simp add: occurs_at_def)
      with jm iend have "a + j < i" by arith
      with no oc show False by blast
    qed
    then have "(\<exists>a. occurs_at s p a) = False" by blast
    with False show ?thesis by (subst KMPSearch_while.simps) simp
  next
    case True
    show ?thesis
    proof (cases "s ! i = p ! j")
      case eq: True
      with pm have "pmatch s p i j \<and> p ! j = s ! i" by simp
      then have pm': "pmatch s p (i + 1) (j + 1)" by (simp only: pmatch_Suc)
      show ?thesis
      proof (cases "j + 1 = length p")
        case full: True
        with pm' have "pmatch s p (i + 1) (length p)" by simp
        moreover from True have "i + 1 \<le> length s" by simp
        ultimately have "occurs_at s p (i + 1 - length p)" by (rule pmatch_full_occurs)
        then have "(\<exists>a. occurs_at s p a) = True" by blast
        with True eq full show ?thesis by (subst KMPSearch_while.simps) simp
      next
        case more: False
        have step: "KMPSearch_while s p (length s) (length p) lps i j
            = KMPSearch_while s p (length s) (length p) lps (i + 1) (j + 1)"
          using True eq more by (subst KMPSearch_while.simps) simp
        have "search_inv s p (i + 1) (j + 1)"
          unfolding search_inv_def using jm more True pm' no by auto
        moreover have "2 * (length s - (i + 1)) + (j + 1) < 2 * (length s - i) + j"
          using True by arith
        ultimately show ?thesis unfolding step by (intro less.hyps)
      qed
    next
      case ne: False
      show ?thesis
      proof (cases "j = 0")
        case False
        let ?j' = "lps ! (j - 1)"
        have step: "KMPSearch_while s p (length s) (length p) lps i j
            = KMPSearch_while s p (length s) (length p) lps i ?j'"
          using True ne False by (subst KMPSearch_while.simps) simp
        from False jm have "j - 1 < length p" and j1: "j - 1 + 1 = j" by arith+
        with tab have bb: "border p j ?j'" and bm: "\<forall>k. border p j k \<longrightarrow> k \<le> ?j'"
          unfolding lps_ok_def by (metis j1)+
        from bb have lt: "?j' < j" by (simp add: border_def)
        have pm': "pmatch s p i ?j'" using pm bb by (rule pmatch_border)
        have no': "\<forall>a. a + ?j' < i \<longrightarrow> \<not> occurs_at s p a"
        proof (intro allI impI notI)
          fix a assume a: "a + ?j' < i" and oc: "occurs_at s p a"
          from no oc have "\<not> a + j < i" by blast
          then have k: "i - a \<le> j" "a \<le> i" using a by arith+
          with jm have "i - a \<le> length p" by simp
          with oc k(2) have pk: "pmatch s p i (i - a)" by (rule occurs_at_pmatch)
          show False
          proof (cases "i - a = j")
            case True
            with k(2) have "a + j = i" by simp
            moreover from oc jm have "s ! (a + j) = p ! j" by (simp add: occurs_at_def)
            ultimately show False using ne by simp
          next
            case False
            with k(1) have "i - a < j" by simp
            with pm pk have "border p j (i - a)" by (rule pmatch_shorter)
            with bm have "i - a \<le> ?j'" by blast
            with a show False by arith
          qed
        qed
        have "search_inv s p i ?j'"
          unfolding search_inv_def using jm lt ins pm' no' by auto
        moreover have "2 * (length s - i) + ?j' < 2 * (length s - i) + j"
          using lt by simp
        ultimately show ?thesis unfolding step by (intro less.hyps)
      next
        case z: True
        have step: "KMPSearch_while s p (length s) (length p) lps i j
            = KMPSearch_while s p (length s) (length p) lps (i + 1) j"
          using True ne z by (subst KMPSearch_while.simps) simp
        have no': "\<forall>a. a + j < i + 1 \<longrightarrow> \<not> occurs_at s p a"
        proof (intro allI impI notI)
          fix a assume a: "a + j < i + 1" and oc: "occurs_at s p a"
          from no oc have "\<not> a + j < i" by blast
          with a z have "a = i" by arith
          moreover from jm z have "0 < length p" by simp
          with oc have "s ! (a + 0) = p ! 0" unfolding occurs_at_def by blast
          ultimately show False using ne z by simp
        qed
        have "search_inv s p (i + 1) j"
          unfolding search_inv_def using jm True z no' by auto
        moreover have "2 * (length s - (i + 1)) + j < 2 * (length s - i) + j"
          using True by arith
        ultimately show ?thesis unfolding step by (intro less.hyps)
      qed
    qed
  qed
qed

lemma occurs_at_sublist: "(\<exists>a. occurs_at s p a) \<longleftrightarrow> sublist p s"
proof
  assume "\<exists>a. occurs_at s p a"
  then obtain a where le: "a + length p \<le> length s"
    and eq: "\<forall>t<length p. s ! (a + t) = p ! t"
    by (auto simp: occurs_at_def)
  have "take (length p) (drop a s) = p"
  proof (rule nth_equalityI)
    show "length (take (length p) (drop a s)) = length p" using le by simp
    fix t assume "t < length (take (length p) (drop a s))"
    then have "t < length p" by simp
    with eq le show "take (length p) (drop a s) ! t = p ! t" by simp
  qed
  then have "s = take a s @ p @ drop (length p) (drop a s)"
    by (metis append_take_drop_id)
  then show "sublist p s" unfolding sublist_def by blast
next
  assume "sublist p s"
  then obtain ps ss where s: "s = ps @ p @ ss" unfolding sublist_def by blast
  have "occurs_at s p (length ps)"
    unfolding occurs_at_def s by (simp add: nth_append)
  then show "\<exists>a. occurs_at s p a" by blast
qed

lemma KMPSearch_correct:
  "KMPSearch s p = Some (p \<noteq> [] \<and> sublist p s)"
proof (cases "p = []")
  case True
  then show ?thesis by (simp add: KMPSearch_def)
next
  case False
  from computeKMPTable_correct [OF False]
  obtain lps where t: "computeKMPTable p = Some lps" and ok: "lps_ok p lps (length p)"
    by blast
  have "search_inv s p 0 0"
    unfolding search_inv_def using False by simp
  with ok have "KMPSearch_while s p (length s) (length p) lps 0 0
      = Some (\<exists>a. occurs_at s p a)"
    by (rule KMPSearch_while_correct)
  with False t show ?thesis
    by (simp add: KMPSearch_def Let_def occurs_at_sublist)
qed

text \<open>
  Claim C3. \<^verbatim>\<open>KMPSearch(text, pattern)\<close> returns, and it returns true exactly when
  the pattern is not empty and occurs as a contiguous substring of the text; for the
  empty pattern it returns false.
\<close>

theorem KMPSearch_iff_substring:
  "KMPSearch text pattern = Some (pattern \<noteq> [] \<and> sublist pattern text)
   \<and> KMPSearch text [] = Some False"
proof
  show "KMPSearch text pattern = Some (pattern \<noteq> [] \<and> sublist pattern text)"
    by (rule KMPSearch_correct)
  show "KMPSearch text [] = Some False"
    by (simp add: KMPSearch_def)
qed

section \<open>Searching the notes: what is displayed\<close>

subsection \<open>Search by tag\<close>

lemma searchNotesByTag_for_eq:
  "searchNotesByTag_for h notes tag (found, out) =
     (found \<or> filter (\<lambda>p. tag \<in> set (tags (h p))) notes \<noteq> [],
      out @ map Display (filter (\<lambda>p. tag \<in> set (tags (h p))) notes))"
  by (induction "notes" arbitrary: found out) simp_all

text \<open>
  Claim C6. Tag search displays exactly the notes one of whose tags is equal to the
  query, character by character, in the order of the list. When there is none, what it
  writes is the line \<^verbatim>\<open>No notes found with that tag.\<close>; the function has no other
  outcome.
\<close>

theorem searchNotesByTag_selects:
  "searchNotesByTag h notes tag =
     (let selected = filter (\<lambda>p. tag \<in> set (tags (h p))) notes
      in if selected = [] then [Line ''No notes found with that tag.'']
         else map Display selected)"
  by (simp add: searchNotesByTag_def searchNotesByTag_for_eq Let_def)

lemma searchNotesByTag_scenario:
  "searchNotesByTag scenario_notes [0, 1, 2] ''urgent'' = [Display 1]
   \<and> searchNotesByTag scenario_notes [0, 1, 2] ''home'' = [Line ''No notes found with that tag.'']
   \<and> searchNotesByTag scenario_notes [0, 1, 2] ''Urgent''
       = [Line ''No notes found with that tag.'']"
  by (simp add: searchNotesByTag_def scenario_notes_def)

subsection \<open>Full-text search\<close>

lemma toLowerCase_Nil [simp]: "toLowerCase s = [] \<longleftrightarrow> s = []"
  by (simp add: toLowerCase_def)







lemma searchNotesFullText_scenario:
  "searchNotesFullText scenario_notes [0, 1, 2] ''aPOllo''
     = Some [Line (newline @ ''Searching all note fields for: aPOllo'' @ newline @ newline
               @ '' ''), Display 0]"
  by code_simp

lemma searchNotesFullText_scenario_miss:
  "searchNotesFullText scenario_notes [0, 1, 2] ''xyz''
     = Some [Line (newline @ ''Searching all note fields for: xyz'' @ newline @ newline
               @ '' ''), Line ''No matching notes found.'']"
  by code_simp

section \<open>Notes with no tag\<close>

text \<open>
  Claim C8 says that every note the program creates has at least one tag. The code
  creates a note with no tag from an empty line of tags in \<^verbatim>\<open>addNote\<close>, where the
  loop that writes the placeholder \<^verbatim>\<open>generic\<close> runs for no token, and from an empty
  tags field in \<^verbatim>\<open>loadDataFromFile\<close>, which has no placeholder.
\<close>

theorem empty_tag_list_created:
  "addNote 3 ''Idea'' ''think'' '''' '''' = Some (Note ''Idea'' ''think'' [])
   \<and> snd (loadDataFromFile_note
            \<lparr>v_title = [], v_description = [], v_tags = [], v_password = []\<rparr>
            ''Note,Idea,think,'')
       = Some (Note ''Idea'' ''think'' [])"
  by (simp add: addNote_def addNote_while.simps loadDataFromFile_note_def split_def
      split_while.simps getline_def stringstream_def Let_def)

end
